theory Spec2Isabelle
  imports Complex_Main
begin

section \<open>Data model\<close>

text \<open>
  The source is a Cython module with three entry points, \<open>least_squares\<close>,
  \<open>least_squares_cg\<close> and \<open>calculate_loss\<close>.  Elements of the fused type
  \<open>floating\<close> are modelled as real numbers, so rounding is not represented; in
  particular a number that is zero over the reals can be a small non-zero number in
  floating point.  The C integers hold array lengths and indices and are modelled
  without wrap-around.

  An iteration of a \<open>prange\<close> loop reads \<open>Y\<close>, the confidence matrix and its own row
  of \<open>X\<close>, and writes its own row of \<open>X\<close> and the scratch buffers of its thread, which
  it overwrites in full before it reads them.  So the scratch buffers appear as local
  values and the loops as loops over the users in increasing order.  The one variable
  that the iterations of different threads write and read in common is the status
  \<open>err\<close> of \<open>least_squares\<close>; it is dealt with there.
\<close>

datatype error =
    SingularMatrix int nat
  | BroadcastError
  | OutOfBounds
  | StatusRace
  | ZeroDivisionError

text \<open>
  \<open>SingularMatrix err u\<close> is the \<open>ValueError("Singular matrix (err=%i) on row %i")\<close>
  of \<open>least_squares\<close>.  \<open>BroadcastError\<close> is the \<open>ValueError\<close> numpy raises when
  two shapes cannot be broadcast.  \<open>ZeroDivisionError\<close> is Python's.  The other two
  are no exceptions; they mark an execution whose result the source does not determine:
  \<open>OutOfBounds\<close> is an access outside a buffer (the functions are compiled with
  \<open>boundscheck(False)\<close>, so this is undefined behaviour), and \<open>StatusRace\<close> is a
  non-zero solver status written to the shared variable \<open>err\<close> of \<open>least_squares\<close>
  while other threads may test or write it.  With either of the two, the matrix
  returned next to it is the state before the iteration that got there, and nothing is
  said about what the source holds afterwards.
  The factor matrices \<open>X\<close> and \<open>Y\<close> are taken to be distinct, C-contiguous arrays.
\<close>

datatype 'a computed = Finite 'a | DividedByZero

text \<open>
  The divisions of \<open>least_squares_cg\<close> are C divisions under \<open>cdivision(True)\<close>:
  a zero divisor raises nothing, the quotient is an infinity or a NaN, and the loop goes
  on computing with it.  \<open>Finite x\<close> is a value computed with no such division.
  \<open>DividedByZero\<close> marks a value computed after a division whose divisor is zero
  over the reals; the model gives no number for it.  (Where the floating-point divisor
  is zero as well, the quotient is an infinity or a NaN; where rounding leaves it a
  small non-zero number, the source computes on with a finite quotient.)
\<close>

record mat =
  shape1 :: nat
  rows :: "real list list"

definition shape0 :: "mat \<Rightarrow> nat" where
  "shape0 M = length (rows M)"

definition rect :: "mat \<Rightarrow> bool" where
  "rect M = list_all (\<lambda>r. length r = shape1 M) (rows M)"

record csr =
  indptr :: "int list"
  indices :: "int list"
  data :: "real list"
  shape :: "nat \<times> nat"
  nnz :: int

section \<open>Memoryview and buffer access\<close>

definition mv_get :: "'a list \<Rightarrow> int \<Rightarrow> error + 'a" where
  "mv_get xs i =
     (let n = int (length xs); j = (if i < 0 then i + n else i)
      in if 0 \<le> j \<and> j < n then Inr (xs ! nat j) else Inl OutOfBounds)"

text \<open>
  Indexing a memoryview wraps a negative index around once (\<open>wraparound\<close> is left on)
  and checks nothing else.  \<open>row_read M i n\<close> reads \<open>n\<close> elements at \<open>&M[i, 0]\<close>;
  with \<open>n\<close> larger than the row the read runs past the row's end, which is marked
  \<open>OutOfBounds\<close> too.  \<open>mem_read buf n\<close> reads \<open>n\<close> elements from the start of a
  buffer.
\<close>

definition row_read :: "mat \<Rightarrow> int \<Rightarrow> nat \<Rightarrow> error + real list" where
  "row_read M i n =
     (case mv_get (rows M) i of
        Inl e \<Rightarrow> Inl e
      | Inr r \<Rightarrow> if n \<le> shape1 M then Inr (take n r) else Inl OutOfBounds)"

definition mem_read :: "real list \<Rightarrow> nat \<Rightarrow> error + real list" where
  "mem_read buf n = (if n \<le> length buf then Inr (take n buf) else Inl OutOfBounds)"

definition memcpy :: "real list \<Rightarrow> real list \<Rightarrow> nat \<Rightarrow> real list" where
  "memcpy dst src n = take n src @ drop n dst"

definition flat :: "mat \<Rightarrow> real list" where
  "flat M = concat (rows M)"

definition py_range :: "int \<Rightarrow> int \<Rightarrow> int list" where
  "py_range lo hi = [lo..hi - 1]"

definition row_range :: "csr \<Rightarrow> nat \<Rightarrow> error + int list" where
  "row_range Cui u =
     (case mv_get (indptr Cui) (int u) of
        Inl e \<Rightarrow> Inl e
      | Inr lo \<Rightarrow>
          (case mv_get (indptr Cui) (int u + 1) of
             Inl e \<Rightarrow> Inl e
           | Inr hi \<Rightarrow> Inr (py_range lo hi)))"

text \<open>
  The four sparse loops of the source have the same header,
  \<open>for index in range(indptr[u], indptr[u+1]): i = indices[index];
  confidence = data[index]\<close>, and a body that reads \<open>n\<close> elements at \<open>&Y[i, 0]\<close>.
\<close>

fun row_loop ::
  "(real list \<Rightarrow> real \<Rightarrow> 's \<Rightarrow> 's) \<Rightarrow> csr \<Rightarrow> mat \<Rightarrow> nat \<Rightarrow> int list \<Rightarrow> 's \<Rightarrow> error + 's" where
  "row_loop body Cui Y n [] s = Inr s"
| "row_loop body Cui Y n (index # rest) s =
     (case mv_get (indices Cui) index of
        Inl e \<Rightarrow> Inl e
      | Inr i \<Rightarrow>
          (case mv_get (data Cui) index of
             Inl e \<Rightarrow> Inl e
           | Inr confidence \<Rightarrow>
               (case row_read Y i n of
                  Inl e \<Rightarrow> Inl e
                | Inr yi \<Rightarrow> row_loop body Cui Y n rest (body yi confidence s))))"

fun users_loop :: "(nat \<Rightarrow> 's \<Rightarrow> error + 's) \<Rightarrow> nat list \<Rightarrow> 's \<Rightarrow> 's \<times> error option" where
  "users_loop body [] s = (s, None)"
| "users_loop body (u # us) s =
     (case body u s of
        Inl e \<Rightarrow> (s, Some e)
      | Inr s' \<Rightarrow> users_loop body us s')"

section \<open>The BLAS level 1 and 2 routines behind the wrappers\<close>

definition axpy :: "nat \<Rightarrow> real \<Rightarrow> real list \<Rightarrow> real list \<Rightarrow> real list" where
  "axpy n da dx dy = map2 (\<lambda>x y. y + da * x) (take n dx) (take n dy) @ drop n dy"

definition axpy_at :: "nat \<Rightarrow> real \<Rightarrow> real list \<Rightarrow> nat \<Rightarrow> real list \<Rightarrow> real list" where
  "axpy_at n da dx off dy = take off dy @ axpy n da dx (drop off dy)"

definition dot :: "nat \<Rightarrow> real list \<Rightarrow> real list \<Rightarrow> real" where
  "dot n sx sy = sum_list (map2 (\<lambda>x y. x * y) (take n sx) (take n sy))"

definition scal :: "nat \<Rightarrow> real \<Rightarrow> real list \<Rightarrow> real list" where
  "scal n sa sx = map (\<lambda>x. sa * x) (take n sx) @ drop n sx"

text \<open>
  \<open>symv\<close> sees the buffer in column-major order with leading dimension \<open>lda\<close> and
  reads the triangle \<open>uplo\<close> names only.  With \<open>beta = 0\<close> the old contents of
  \<open>y\<close> are not read.
\<close>

definition symv ::
  "char \<Rightarrow> nat \<Rightarrow> real \<Rightarrow> real list \<Rightarrow> nat \<Rightarrow> real list \<Rightarrow> real \<Rightarrow> real list \<Rightarrow> real list" where
  "symv uplo n alpha a lda x beta y =
     map (\<lambda>i. alpha * (\<Sum>j\<leftarrow>[0..<n].
                  a ! (if uplo = CHR ''U'' then min i j + max i j * lda
                       else max i j + min i j * lda) * x ! j)
             + (if beta = 0 then 0 else beta * y ! i)) [0..<n]"

section \<open>The numpy expressions of the prologues\<close>

definition np_transpose :: "mat \<Rightarrow> mat" where
  "np_transpose M =
     \<lparr>shape1 = shape0 M, rows = map (\<lambda>j. map (\<lambda>r. r ! j) (rows M)) [0..<shape1 M]\<rparr>"

definition np_dot :: "mat \<Rightarrow> mat \<Rightarrow> mat" where
  "np_dot A B =
     \<lparr>shape1 = shape1 B,
      rows = map (\<lambda>ra. map (\<lambda>k. \<Sum>(a, rb)\<leftarrow>zip ra (rows B). a * rb ! k) [0..<shape1 B]) (rows A)\<rparr>"

definition np_eye :: "nat \<Rightarrow> mat" where
  "np_eye n =
     \<lparr>shape1 = n, rows = map (\<lambda>j. map (\<lambda>k. if j = k then 1 else 0) [0..<n]) [0..<n]\<rparr>"

definition np_scale :: "real \<Rightarrow> mat \<Rightarrow> mat" where
  "np_scale c M = \<lparr>shape1 = shape1 M, rows = map (map (\<lambda>x. c * x)) (rows M)\<rparr>"

definition bdim_ok :: "nat \<Rightarrow> nat \<Rightarrow> bool" where
  "bdim_ok a b = (a = b \<or> a = 1 \<or> b = 1)"

definition bdim :: "nat \<Rightarrow> nat \<Rightarrow> nat" where
  "bdim a b = (if a = 1 then b else a)"

definition bget :: "mat \<Rightarrow> nat \<Rightarrow> nat \<Rightarrow> real" where
  "bget M j k = rows M ! (if shape0 M = 1 then 0 else j) ! (if shape1 M = 1 then 0 else k)"

definition np_add :: "mat \<Rightarrow> mat \<Rightarrow> error + mat" where
  "np_add A B =
     (if bdim_ok (shape0 A) (shape0 B) \<and> bdim_ok (shape1 A) (shape1 B)
      then Inr \<lparr>shape1 = bdim (shape1 A) (shape1 B),
                rows = map (\<lambda>j. map (\<lambda>k. bget A j k + bget B j k)
                                   [0..<bdim (shape1 A) (shape1 B)])
                           [0..<bdim (shape0 A) (shape0 B)]\<rparr>
      else Inl BroadcastError)"

section \<open>least_squares\<close>

type_synonym posv_t = "nat \<Rightarrow> real list \<Rightarrow> real list \<Rightarrow> real list \<times> real list \<times> int"
type_synonym gesv_t = "nat \<Rightarrow> real list \<Rightarrow> real list \<Rightarrow> real list \<times> int list \<times> real list \<times> int"

text \<open>
  The LAPACK drivers \<open>posv\<close> and \<open>gesv\<close> are external; they are parameters.
  \<open>posv n a b\<close> stands for the call \<open>posv("U", n, 1, a, n, b, n, info)\<close> and
  returns the buffers \<open>a\<close> and \<open>b\<close> as the call leaves them, and \<open>info\<close>;
  \<open>gesv n a b\<close> stands for \<open>gesv(n, 1, a, n, pivot, b, n, info)\<close> and returns the
  pivot indices as well.
\<close>

definition build_step :: "nat \<Rightarrow> real list \<Rightarrow> real \<Rightarrow> real list \<times> real list \<Rightarrow> real list \<times> real list" where
  "build_step factors yi confidence Ab =
     (let b = axpy factors confidence yi (snd Ab);
          A = foldl (\<lambda>A j. axpy_at factors ((confidence - 1) * yi ! j) yi (j * factors) A)
                (fst Ab) [0..<factors]
      in (A, b))"

definition build_system ::
  "csr \<Rightarrow> mat \<Rightarrow> nat \<Rightarrow> mat \<Rightarrow> real list \<Rightarrow> nat \<Rightarrow> error + real list \<times> real list" where
  "build_system Cui Y factors initialA initialB u =
     (case mem_read (flat initialA) (factors * factors) of
        Inl e \<Rightarrow> Inl e
      | Inr A0 \<Rightarrow>
     (case mem_read initialB factors of
        Inl e \<Rightarrow> Inl e
      | Inr b0 \<Rightarrow>
     (case row_range Cui u of
        Inl e \<Rightarrow> Inl e
      | Inr idxs \<Rightarrow> row_loop (build_step factors) Cui Y factors idxs (A0, b0))))"

definition direct_solve :: "posv_t \<Rightarrow> gesv_t \<Rightarrow> nat \<Rightarrow> real list \<Rightarrow> real list \<Rightarrow> real list \<times> int" where
  "direct_solve posv gesv factors A b =
     (case posv factors A b of
        (A1, b1, err) \<Rightarrow>
          if err \<noteq> 0
          then (case gesv factors A1 b1 of (A2, pivot, b2, err2) \<Rightarrow> (b2, err2))
          else (b1, err))"

text \<open>
  The status \<open>err\<close> is declared once, for the whole function, and the loop body only
  passes its address to \<open>posv\<close> and \<open>gesv\<close>: nothing in the body assigns to it, so
  it is not private to a thread, and the calls and the two tests \<open>if err\<close> and
  \<open>if not err\<close> of all threads use the same variable.  When one thread runs the
  loop (\<open>num_threads = 1\<close>), or when there is one iteration, every test reads what
  the call before it wrote.  Otherwise (\<open>num_threads = 0\<close>, the default, leaves the
  size of the team to OpenMP) a call of another iteration may write between a call and
  the test after it.  While every call reports zero this makes no difference, since all
  writes store the same value (lemma \<open>least_squares_schedule_agrees\<close>).  As soon as a
  call reports a non-zero status, what the tests of the running iterations read depends
  on the schedule, and the model stops with \<open>StatusRace\<close>.  The section on schedules
  follows single schedules of a team.
\<close>

definition shared_status :: "int \<Rightarrow> nat \<Rightarrow> bool" where
  "shared_status num_threads users = (num_threads \<noteq> 1 \<and> 1 < users)"

definition least_squares_user ::
  "posv_t \<Rightarrow> gesv_t \<Rightarrow> bool \<Rightarrow> csr \<Rightarrow> mat \<Rightarrow> nat \<Rightarrow> mat \<Rightarrow> real list \<Rightarrow> nat \<Rightarrow> mat \<Rightarrow> error + mat" where
  "least_squares_user posv gesv shared Cui Y factors initialA initialB u X =
     (case build_system Cui Y factors initialA initialB u of
        Inl e \<Rightarrow> Inl e
      | Inr (A, b) \<Rightarrow>
          if shared \<and> snd (snd (posv factors A b)) \<noteq> 0 then Inl StatusRace
          else
            (case direct_solve posv gesv factors A b of
               (b2, err) \<Rightarrow>
                 if err = 0
                 then Inr (X\<lparr>rows := (rows X)[u := memcpy (rows X ! u) b2 factors]\<rparr>)
                 else Inl (SingularMatrix err u)))"

definition least_squares ::
  "posv_t \<Rightarrow> gesv_t \<Rightarrow> csr \<Rightarrow> mat \<Rightarrow> mat \<Rightarrow> real \<Rightarrow> int \<Rightarrow> mat \<times> error option" where
  "least_squares posv gesv Cui X Y regularization num_threads =
     (let users = shape0 X; factors = shape1 X;
          YtY = np_dot (np_transpose Y) Y
      in case np_add YtY (np_scale regularization (np_eye factors)) of
           Inl e \<Rightarrow> (X, Some e)
         | Inr initialA \<Rightarrow>
             (let initialB = replicate factors 0
              in users_loop
                   (least_squares_user posv gesv (shared_status num_threads users) Cui Y factors
                      initialA initialB)
                   [0..<users] X))"

section \<open>Reference instances of the LAPACK drivers\<close>

text \<open>
  The unblocked LAPACK algorithms on a column-major \<open>n \<times> n\<close> buffer, over the reals:
  Cholesky factorisation of the upper triangle (\<open>potf2\<close>) followed by the two
  triangular solves (\<open>potrs\<close>), and LU factorisation with partial pivoting
  (\<open>getf2\<close>) followed by \<open>getrs\<close>.  They instantiate the parameters \<open>posv\<close> and
  \<open>gesv\<close> at concrete inputs.
\<close>

fun potf2 :: "nat \<Rightarrow> nat list \<Rightarrow> real list \<Rightarrow> real list \<times> int" where
  "potf2 n [] a = (a, 0)"
| "potf2 n (j # js) a =
     (let ajj = a ! (j + j * n) - (\<Sum>k\<leftarrow>[0..<j]. a ! (k + j * n) * a ! (k + j * n))
      in if ajj \<le> 0 then (a[j + j * n := ajj], int j + 1)
         else (let d = sqrt ajj;
                   a1 = a[j + j * n := d];
                   a2 = foldl (\<lambda>a c. a[j + c * n :=
                                 (a ! (j + c * n) - (\<Sum>k\<leftarrow>[0..<j]. a ! (k + j * n) * a ! (k + c * n))) / d])
                          a1 [Suc j..<n]
               in potf2 n js a2))"

definition back_subst :: "nat \<Rightarrow> real list \<Rightarrow> real list \<Rightarrow> real list" where
  "back_subst n a y =
     foldl (\<lambda>x j. x[j := (x ! j - (\<Sum>k\<leftarrow>[Suc j..<n]. a ! (j + k * n) * x ! k)) / a ! (j + j * n)])
       y (rev [0..<n])"

definition potrs :: "nat \<Rightarrow> real list \<Rightarrow> real list \<Rightarrow> real list" where
  "potrs n a b =
     (let y = foldl (\<lambda>y j. y[j := (y ! j - (\<Sum>k\<leftarrow>[0..<j]. a ! (k + j * n) * y ! k)) / a ! (j + j * n)])
                b [0..<n]
      in back_subst n a y)"

definition posv_ref :: posv_t where
  "posv_ref n a b =
     (case potf2 n [0..<n] a of
        (a', info) \<Rightarrow> if info = 0 then (a', potrs n a' b, 0) else (a', b, info))"

definition idamax_col :: "nat \<Rightarrow> nat \<Rightarrow> real list \<Rightarrow> nat" where
  "idamax_col n j a =
     foldl (\<lambda>p i. if \<bar>a ! (p + j * n)\<bar> < \<bar>a ! (i + j * n)\<bar> then i else p) j [Suc j..<n]"

definition swap_rows :: "nat \<Rightarrow> nat \<Rightarrow> nat \<Rightarrow> real list \<Rightarrow> real list" where
  "swap_rows n j p a =
     foldl (\<lambda>a c. a[j + c * n := a ! (p + c * n), p + c * n := a ! (j + c * n)]) a [0..<n]"

fun getf2 :: "nat \<Rightarrow> nat list \<Rightarrow> real list \<Rightarrow> int list \<Rightarrow> int \<Rightarrow> real list \<times> int list \<times> int" where
  "getf2 n [] a ipiv info = (a, ipiv, info)"
| "getf2 n (j # js) a ipiv info =
     (let jp = idamax_col n j a;
          a1 = (if a ! (jp + j * n) \<noteq> 0
                then (let s = swap_rows n j jp a
                      in foldl (\<lambda>a i. a[i + j * n := a ! (i + j * n) / s ! (j + j * n)]) s [Suc j..<n])
                else a);
          info1 = (if a ! (jp + j * n) = 0 \<and> info = 0 then int j + 1 else info);
          a2 = foldl (\<lambda>a c. foldl (\<lambda>a i. a[i + c * n :=
                                       a ! (i + c * n) - a1 ! (i + j * n) * a1 ! (j + c * n)])
                              a [Suc j..<n])
                 a1 [Suc j..<n]
      in getf2 n js a2 (ipiv @ [int jp + 1]) info1)"

definition getrs :: "nat \<Rightarrow> real list \<Rightarrow> int list \<Rightarrow> real list \<Rightarrow> real list" where
  "getrs n a ipiv b =
     (let b1 = foldl (\<lambda>b j. b[j := b ! nat (ipiv ! j - 1), nat (ipiv ! j - 1) := b ! j]) b [0..<n];
          y = foldl (\<lambda>y j. y[j := y ! j - (\<Sum>k\<leftarrow>[0..<j]. a ! (j + k * n) * y ! k)]) b1 [0..<n]
      in back_subst n a y)"

definition gesv_ref :: gesv_t where
  "gesv_ref n a b =
     (case getf2 n [0..<n] a [] 0 of
        (a', ipiv, info) \<Rightarrow>
          if info = 0 then (a', ipiv, getrs n a' ipiv b, 0) else (a', ipiv, b, info))"

section \<open>Schedules of least_squares\<close>

text \<open>
  One run of the parallel loop of \<open>least_squares\<close> by a team of \<open>threads\<close> threads,
  at the grain of the statements that touch \<open>err\<close>.  An iteration that has started
  holds the buffers \<open>A\<close> and \<open>b\<close> of its thread.  It takes three steps:
  it assembles its system and calls \<open>posv\<close>, which leaves its status in \<open>err\<close>;
  it tests \<open>if err\<close> and, on a non-zero value, calls \<open>gesv\<close>, which leaves its
  status in \<open>err\<close>; it tests \<open>if not err\<close> and copies \<open>b\<close> into its row of \<open>X\<close>
  or raises.  A schedule lists the users in the order in which their iterations take
  their next step.  An iteration starts only while a thread is free and no iteration has
  raised.  The model does not fix which waiting user a free thread takes, and it takes a
  LAPACK routine to write \<open>err\<close> once, when it returns.  \<open>err\<close> is not
  initialised by the source; \<open>err0\<close> is what it holds at the start.
\<close>

datatype iteration =
    NotStarted
  | Factored "real list" "real list"
  | Solved "real list"
  | Stored
  | Raised int

record team =
  team_X :: mat
  team_err :: int
  team_iterations :: "iteration list"

definition running :: "iteration \<Rightarrow> bool" where
  "running i = (case i of Factored A b \<Rightarrow> True | Solved b \<Rightarrow> True | _ \<Rightarrow> False)"

definition raised :: "iteration \<Rightarrow> bool" where
  "raised i = (case i of Raised err \<Rightarrow> True | _ \<Rightarrow> False)"

definition schedule_step ::
  "posv_t \<Rightarrow> gesv_t \<Rightarrow> nat \<Rightarrow> csr \<Rightarrow> mat \<Rightarrow> nat \<Rightarrow> mat \<Rightarrow> real list \<Rightarrow> nat \<Rightarrow> team \<Rightarrow> team option" where
  "schedule_step posv gesv threads Cui Y factors initialA initialB u t =
     (if length (team_iterations t) \<le> u then None
      else
        (case team_iterations t ! u of
           NotStarted \<Rightarrow>
             if threads \<le> length (filter running (team_iterations t))
                \<or> list_ex raised (team_iterations t)
             then None
             else
               (case build_system Cui Y factors initialA initialB u of
                  Inl e \<Rightarrow> None
                | Inr (A, b) \<Rightarrow>
                    (case posv factors A b of
                       (A1, b1, err) \<Rightarrow>
                         Some (t\<lparr>team_err := err,
                                 team_iterations := (team_iterations t)[u := Factored A1 b1]\<rparr>)))
         | Factored A b \<Rightarrow>
             if team_err t \<noteq> 0
             then (case gesv factors A b of
                     (A2, pivot, b2, err) \<Rightarrow>
                       Some (t\<lparr>team_err := err,
                               team_iterations := (team_iterations t)[u := Solved b2]\<rparr>))
             else Some (t\<lparr>team_iterations := (team_iterations t)[u := Solved b]\<rparr>)
         | Solved b \<Rightarrow>
             if team_err t = 0
             then Some (t\<lparr>team_X := (team_X t)\<lparr>rows :=
                               (rows (team_X t))[u := memcpy (rows (team_X t) ! u) b factors]\<rparr>,
                           team_iterations := (team_iterations t)[u := Stored]\<rparr>)
             else Some (t\<lparr>team_iterations := (team_iterations t)[u := Raised (team_err t)]\<rparr>)
         | Stored \<Rightarrow> None
         | Raised err \<Rightarrow> None))"

fun run_schedule :: "(nat \<Rightarrow> team \<Rightarrow> team option) \<Rightarrow> nat list \<Rightarrow> team \<Rightarrow> team option" where
  "run_schedule step [] t = Some t"
| "run_schedule step (u # us) t =
     (case step u t of
        None \<Rightarrow> None
      | Some t' \<Rightarrow> run_schedule step us t')"

definition least_squares_schedule ::
  "posv_t \<Rightarrow> gesv_t \<Rightarrow> nat \<Rightarrow> int \<Rightarrow> nat list \<Rightarrow> csr \<Rightarrow> mat \<Rightarrow> mat \<Rightarrow> real \<Rightarrow> team option" where
  "least_squares_schedule posv gesv threads err0 schedule Cui X Y regularization =
     (let users = shape0 X; factors = shape1 X;
          YtY = np_dot (np_transpose Y) Y
      in case np_add YtY (np_scale regularization (np_eye factors)) of
           Inl e \<Rightarrow> None
         | Inr initialA \<Rightarrow>
             (let initialB = replicate factors 0
              in run_schedule
                   (schedule_step posv gesv threads Cui Y factors initialA initialB) schedule
                   \<lparr>team_X = X, team_err = err0,
                    team_iterations = replicate users NotStarted\<rparr>))"

text \<open>
  The states of a team in which no call has reported a non-zero status: \<open>err\<close> holds
  0 once an iteration has started, an iteration that has started holds what \<open>posv\<close>
  returned for its system, and a row of \<open>X\<close> is the row of the input until its
  iteration has stored the solution there.
\<close>

definition iteration_ok ::
  "posv_t \<Rightarrow> nat \<Rightarrow> (error + real list \<times> real list) \<Rightarrow> real list \<Rightarrow> real list \<Rightarrow> iteration \<Rightarrow> bool" where
  "iteration_ok posv n sys row0 row i =
     (case i of
        NotStarted \<Rightarrow> row = row0
      | Factored A1 b1 \<Rightarrow> row = row0 \<and> (\<exists>A b. sys = Inr (A, b) \<and> posv n A b = (A1, b1, 0))
      | Solved b1 \<Rightarrow> row = row0 \<and> (\<exists>A b A1. sys = Inr (A, b) \<and> posv n A b = (A1, b1, 0))
      | Stored \<Rightarrow> (\<exists>A b A1 b1. sys = Inr (A, b) \<and> posv n A b = (A1, b1, 0)
                     \<and> row = memcpy row0 b1 n)
      | Raised err \<Rightarrow> False)"

definition team_ok ::
  "posv_t \<Rightarrow> nat \<Rightarrow> (nat \<Rightarrow> error + real list \<times> real list) \<Rightarrow> mat \<Rightarrow> team \<Rightarrow> bool" where
  "team_ok posv n sys X t =
     (length (team_iterations t) = length (rows X)
      \<and> length (rows (team_X t)) = length (rows X)
      \<and> shape1 (team_X t) = shape1 X
      \<and> ((\<exists>i \<in> set (team_iterations t). i \<noteq> NotStarted) \<longrightarrow> team_err t = 0)
      \<and> (\<forall>u<length (rows X).
            iteration_ok posv n (sys u) (rows X ! u) (rows (team_X t) ! u) (team_iterations t ! u)))"

section \<open>least_squares_cg\<close>

text \<open>
  \<open>malloc\<close> gives a buffer with indeterminate contents; the stand-in contents are
  never read.  The loop over \<open>range(cg_steps)\<close> has no test and no exit.  Where the
  divisor \<open>p \<cdot> Ap\<close> is zero, \<open>x\<close>, which is the row of \<open>X\<close>, is updated with the
  quotient at once, and the iterations that remain compute with it: the row is
  \<open>DividedByZero\<close> from then on, and the loop over the users goes on with the next
  user.  The second divisor, \<open>rsold\<close>, equals \<open>r \<cdot> r\<close> whenever it is read, and
  when it is zero so are \<open>r\<close>, \<open>p\<close> and \<open>p \<cdot> Ap\<close>: the first division is
  never behind the second (lemma \<open>wf_cg_divisors\<close>).
\<close>

definition malloc :: "nat \<Rightarrow> real list" where
  "malloc n = replicate n 0"

record cg_state =
  cg_x :: "real list"
  cg_p :: "real list"
  cg_r :: "real list"
  rsold :: real

definition residual_step :: "nat \<Rightarrow> real list \<Rightarrow> real list \<Rightarrow> real \<Rightarrow> real list \<Rightarrow> real list" where
  "residual_step N x yi confidence r =
     (let temp = confidence - (confidence - 1) * dot N yi x
      in axpy N temp yi r)"

definition Ap_step :: "nat \<Rightarrow> real list \<Rightarrow> real list \<Rightarrow> real \<Rightarrow> real list \<Rightarrow> real list" where
  "Ap_step N p yi confidence Ap =
     (let temp = (confidence - 1) * dot N yi p
      in axpy N temp yi Ap)"

definition cg_iteration ::
  "csr \<Rightarrow> mat \<Rightarrow> nat \<Rightarrow> real list \<Rightarrow> int list \<Rightarrow> cg_state \<Rightarrow> error + cg_state computed" where
  "cg_iteration Cui Y N YtY idxs s =
     (case row_loop (Ap_step N (cg_p s)) Cui Y N idxs
             (symv (CHR ''U'') N 1 YtY N (cg_p s) 0 (malloc N)) of
        Inl e \<Rightarrow> Inl e
      | Inr Ap \<Rightarrow>
          if dot N (cg_p s) Ap = 0 then Inr DividedByZero
          else
            (let alpha = rsold s / dot N (cg_p s) Ap;
                 x = axpy N alpha (cg_p s) (cg_x s);
                 r = axpy N (alpha * - 1) Ap (cg_r s);
                 rsnew = dot N r r
             in if rsold s = 0 then Inr DividedByZero
                else
                  (let temp = rsnew / rsold s;
                       p = axpy N 1 r (scal N temp (cg_p s))
                   in Inr (Finite \<lparr>cg_x = x, cg_p = p, cg_r = r, rsold = rsnew\<rparr>))))"

fun cg_loop ::
  "(cg_state \<Rightarrow> error + cg_state computed) \<Rightarrow> int list \<Rightarrow> cg_state computed
     \<Rightarrow> error + cg_state computed" where
  "cg_loop step [] s = Inr s"
| "cg_loop step (it # its) (Finite s) =
     (case step s of
        Inl e \<Rightarrow> Inl e
      | Inr s' \<Rightarrow> cg_loop step its s')"
| "cg_loop step (it # its) DividedByZero = cg_loop step its DividedByZero"

text \<open>
  The loop over the users works on the rows of \<open>X\<close> in place.  Every row is
  \<open>Finite\<close> when the call starts, and an iteration reads no row but its own; the
  case of a row that is \<open>DividedByZero\<close> already is there for completeness.
\<close>

definition least_squares_cg_user ::
  "csr \<Rightarrow> mat \<Rightarrow> nat \<Rightarrow> mat \<Rightarrow> int \<Rightarrow> nat \<Rightarrow> real list computed list
     \<Rightarrow> error + real list computed list" where
  "least_squares_cg_user Cui Y N YtY cg_steps u X =
     (case mem_read (flat YtY) (N * N) of
        Inl e \<Rightarrow> Inl e
      | Inr a \<Rightarrow>
     (case row_range Cui u of
        Inl e \<Rightarrow> Inl e
      | Inr idxs \<Rightarrow>
     (case X ! u of
        DividedByZero \<Rightarrow> Inr X
      | Finite x \<Rightarrow>
          (case row_loop (residual_step N x) Cui Y N idxs
                  (symv (CHR ''U'') N (- 1) a N x 0 (malloc N)) of
             Inl e \<Rightarrow> Inl e
           | Inr r \<Rightarrow>
               (let p = memcpy (malloc N) r N;
                    s0 = \<lparr>cg_x = x, cg_p = p, cg_r = r, rsold = dot N r r\<rparr>
                in case cg_loop (cg_iteration Cui Y N a idxs) (py_range 0 cg_steps) (Finite s0) of
                     Inl e \<Rightarrow> Inl e
                   | Inr s \<Rightarrow> Inr (X[u := map_computed cg_x s]))))))"

definition least_squares_cg ::
  "csr \<Rightarrow> mat \<Rightarrow> mat \<Rightarrow> real \<Rightarrow> int \<Rightarrow> real list computed list \<times> error option" where
  "least_squares_cg Cui X Y regularization cg_steps =
     (let users = shape0 X; N = shape1 X
      in case np_add (np_dot (np_transpose Y) Y) (np_scale regularization (np_eye N)) of
           Inl e \<Rightarrow> (map Finite (rows X), Some e)
         | Inr YtY \<Rightarrow>
             users_loop (least_squares_cg_user Cui Y N YtY cg_steps) [0..<users]
               (map Finite (rows X)))"

section \<open>calculate_loss\<close>

text \<open>
  The state holds everything the function can reach through a pointer: the two factor
  matrices, the scratch vector and the four accumulators.  The result is the returned
  value, or the error, together with the factor matrices as the call leaves them.
\<close>

record loss_state =
  mX :: mat
  mY :: mat
  r_buf :: "real list"
  loss :: real
  total_confidence :: real
  item_norm :: real
  user_norm :: real

definition loss_step :: "nat \<Rightarrow> real list \<Rightarrow> real list \<Rightarrow> real \<Rightarrow> loss_state \<Rightarrow> loss_state" where
  "loss_step N xu yi confidence s =
     (let temp = (confidence - 1) * dot N yi xu - 2 * confidence
      in s\<lparr>r_buf := axpy N temp yi (r_buf s),
            total_confidence := total_confidence s + confidence,
            loss := loss s + confidence\<rparr>)"

definition calculate_loss_user :: "csr \<Rightarrow> nat \<Rightarrow> mat \<Rightarrow> nat \<Rightarrow> loss_state \<Rightarrow> error + loss_state" where
  "calculate_loss_user Cui N YtY u s =
     (case mem_read (flat YtY) (N * N) of
        Inl e \<Rightarrow> Inl e
      | Inr a \<Rightarrow>
     (case row_range Cui u of
        Inl e \<Rightarrow> Inl e
      | Inr idxs \<Rightarrow>
          (let xu = rows (mX s) ! u;
               s1 = s\<lparr>r_buf := symv (CHR ''U'') N 1 a N xu 0 (r_buf s)\<rparr>
           in case row_loop (loss_step N xu) Cui (mY s) N idxs s1 of
                Inl e \<Rightarrow> Inl e
              | Inr s2 \<Rightarrow>
                  Inr (s2\<lparr>loss := loss s2 + dot N (r_buf s2) xu,
                           user_norm := user_norm s2 + dot N xu xu\<rparr>))))"

definition calculate_loss_item :: "nat \<Rightarrow> nat \<Rightarrow> loss_state \<Rightarrow> error + loss_state" where
  "calculate_loss_item N i s =
     (case row_read (mY s) (int i) N of
        Inl e \<Rightarrow> Inl e
      | Inr yi \<Rightarrow> Inr (s\<lparr>item_norm := item_norm s + dot N yi yi\<rparr>))"

definition calculate_loss :: "csr \<Rightarrow> mat \<Rightarrow> mat \<Rightarrow> real \<Rightarrow> (error + real) \<times> mat \<times> mat" where
  "calculate_loss Cui X Y regularization =
     (let users = shape0 X; N = shape1 X; items = shape0 Y;
          YtY = np_dot (np_transpose Y) Y;
          s0 = \<lparr>mX = X, mY = Y, r_buf = malloc N, loss = 0, total_confidence = 0,
                item_norm = 0, user_norm = 0\<rparr>
      in case users_loop (calculate_loss_user Cui N YtY) [0..<users] s0 of
           (s1, Some e) \<Rightarrow> (Inl e, mX s1, mY s1)
         | (s1, None) \<Rightarrow>
             (case users_loop (calculate_loss_item N) [0..<items] s1 of
                (s2, Some e) \<Rightarrow> (Inl e, mX s2, mY s2)
              | (s2, None) \<Rightarrow>
                  (let loss2 = loss s2 + regularization * (item_norm s2 + user_norm s2);
                       denom = total_confidence s2
                         + real_of_int (int (fst (shape Cui)) * int (snd (shape Cui)))
                         - real_of_int (nnz Cui)
                   in if denom = 0 then (Inl ZeroDivisionError, mX s2, mY s2)
                      else (Inr (loss2 / denom), mX s2, mY s2))))"

section \<open>Well-formed inputs\<close>

definition wf_csr :: "csr \<Rightarrow> nat \<Rightarrow> nat \<Rightarrow> bool" where
  "wf_csr Cui users items =
     (length (indptr Cui) = users + 1
      \<and> indptr Cui ! 0 = 0
      \<and> sorted (indptr Cui)
      \<and> last (indptr Cui) = int (length (data Cui))
      \<and> length (indices Cui) = length (data Cui)
      \<and> list_all (\<lambda>i. 0 \<le> i \<and> i < int items) (indices Cui)
      \<and> shape Cui = (users, items)
      \<and> nnz Cui = int (length (data Cui)))"

definition wf_input :: "csr \<Rightarrow> mat \<Rightarrow> mat \<Rightarrow> bool" where
  "wf_input Cui X Y =
     (rect X \<and> rect Y \<and> shape1 Y = shape1 X \<and> wf_csr Cui (shape0 X) (shape0 Y))"

definition user_entries :: "csr \<Rightarrow> nat \<Rightarrow> (nat \<times> real) list" where
  "user_entries Cui u =
     map (\<lambda>k. (nat (indices Cui ! k), data Cui ! k))
       [nat (indptr Cui ! u)..<nat (indptr Cui ! Suc u)]"

definition wf_values :: "csr \<Rightarrow> nat \<Rightarrow> bool" where
  "wf_values Cui users =
     (list_all (\<lambda>c. 0 \<le> c) (data Cui)
      \<and> list_all (\<lambda>u. distinct (map fst (user_entries Cui u))) [0..<users])"

definition user_range :: "csr \<Rightarrow> nat \<Rightarrow> int list" where
  "user_range Cui u = map int [nat (indptr Cui ! u)..<nat (indptr Cui ! Suc u)]"

section \<open>The normal equations, as the specification states them\<close>

text \<open>
  \<open>gram Y j k\<close> is the entry of \<open>YtY\<close>; \<open>A_spec\<close> and \<open>b_spec\<close> are the system of
  one user with the stored entries \<open>es\<close>, a list of pairs of item and confidence:
  \<open>A = YtY + regularization * I + \<Sum> (c - 1) * y y\<^sup>T\<close> and \<open>b = \<Sum> c * y\<close>.
\<close>

definition gram :: "mat \<Rightarrow> nat \<Rightarrow> nat \<Rightarrow> real" where
  "gram Y j k = (\<Sum>r\<leftarrow>rows Y. r ! j * r ! k)"

definition A_spec :: "mat \<Rightarrow> real \<Rightarrow> (nat \<times> real) list \<Rightarrow> nat \<Rightarrow> nat \<Rightarrow> real" where
  "A_spec Y regularization es j k =
     gram Y j k + (if j = k then regularization else 0)
       + (\<Sum>(i, c)\<leftarrow>es. (c - 1) * rows Y ! i ! j * rows Y ! i ! k)"

definition b_spec :: "mat \<Rightarrow> (nat \<times> real) list \<Rightarrow> nat \<Rightarrow> real" where
  "b_spec Y es j = (\<Sum>(i, c)\<leftarrow>es. c * rows Y ! i ! j)"

definition solves :: "nat \<Rightarrow> (nat \<Rightarrow> nat \<Rightarrow> real) \<Rightarrow> (nat \<Rightarrow> real) \<Rightarrow> real list \<Rightarrow> bool" where
  "solves n A b x = (length x = n \<and> (\<forall>j<n. (\<Sum>k<n. A j k * x ! k) = b j))"

text \<open>
  What the model asks of \<open>posv\<close>: on a buffer of \<open>n * n\<close> elements holding a symmetric
  positive definite matrix it reports 0 and returns the solution in \<open>b\<close>.
\<close>

definition spd :: "nat \<Rightarrow> real list \<Rightarrow> bool" where
  "spd n a =
     ((\<forall>j<n. \<forall>k<n. a ! (j + k * n) = a ! (k + j * n))
      \<and> (\<forall>v. length v = n \<and> (\<exists>j<n. v ! j \<noteq> 0)
             \<longrightarrow> 0 < (\<Sum>j<n. \<Sum>k<n. v ! j * a ! (j + k * n) * v ! k)))"

definition posv_contract :: "posv_t \<Rightarrow> nat \<Rightarrow> bool" where
  "posv_contract posv n =
     (\<forall>a b. length a = n * n \<and> length b = n \<and> spd n a \<longrightarrow>
        (\<exists>a' x. posv n a b = (a', x, 0) \<and> length x = n
           \<and> (\<forall>j<n. (\<Sum>k<n. a ! (j + k * n) * x ! k) = b ! j)))"

section \<open>The loss, as the specification states it\<close>

text \<open>
  \<open>r_spec\<close> is \<open>r = (YtY) x\<close> corrected for every stored entry by
  \<open>((c - 1) * (y \<cdot> x) - 2 * c) * y\<close>, and \<open>user_term\<close> is \<open>r \<cdot> x\<close>.
  \<open>loss_claimed\<close> sums \<open>user_term\<close> over the users; \<open>loss_value\<close> adds to each
  user's term the sum of the user's stored confidences.
\<close>

definition vdot :: "nat \<Rightarrow> real list \<Rightarrow> real list \<Rightarrow> real" where
  "vdot n x y = (\<Sum>k<n. x ! k * y ! k)"

definition r_spec :: "mat \<Rightarrow> (nat \<times> real) list \<Rightarrow> nat \<Rightarrow> real list \<Rightarrow> nat \<Rightarrow> real" where
  "r_spec Y es n x j =
     (\<Sum>k<n. gram Y j k * x ! k)
       + (\<Sum>(i, c)\<leftarrow>es. ((c - 1) * vdot n (rows Y ! i) x - 2 * c) * rows Y ! i ! j)"

definition user_term :: "mat \<Rightarrow> (nat \<times> real) list \<Rightarrow> nat \<Rightarrow> real list \<Rightarrow> real" where
  "user_term Y es n x = (\<Sum>j<n. r_spec Y es n x j * x ! j)"

definition norms :: "mat \<Rightarrow> mat \<Rightarrow> real" where
  "norms X Y =
     (\<Sum>u<shape0 X. vdot (shape1 X) (rows X ! u) (rows X ! u))
       + (\<Sum>i<shape0 Y. vdot (shape1 X) (rows Y ! i) (rows Y ! i))"

definition loss_denominator :: "csr \<Rightarrow> mat \<Rightarrow> mat \<Rightarrow> real" where
  "loss_denominator Cui X Y =
     sum_list (data Cui) + real (shape0 X * shape0 Y) - real (length (data Cui))"

definition loss_claimed :: "csr \<Rightarrow> mat \<Rightarrow> mat \<Rightarrow> real \<Rightarrow> real" where
  "loss_claimed Cui X Y regularization =
     ((\<Sum>u<shape0 X. user_term Y (user_entries Cui u) (shape1 X) (rows X ! u))
        + regularization * norms X Y)
     / loss_denominator Cui X Y"

definition loss_value :: "csr \<Rightarrow> mat \<Rightarrow> mat \<Rightarrow> real \<Rightarrow> real" where
  "loss_value Cui X Y regularization =
     ((\<Sum>u<shape0 X. user_term Y (user_entries Cui u) (shape1 X) (rows X ! u)
                       + (\<Sum>(i, c)\<leftarrow>user_entries Cui u. c))
        + regularization * norms X Y)
     / loss_denominator Cui X Y"

section \<open>Conjugate gradient, as the specification states it\<close>

text \<open>
  The recurrence on a materialised matrix \<open>A\<close>: from \<open>x\<^sub>0\<close>, with
  \<open>r\<^sub>0 = b - A x\<^sub>0\<close>, \<open>p\<^sub>0 = r\<^sub>0\<close> and \<open>rsold = r\<^sub>0 \<cdot> r\<^sub>0\<close>, each iteration
  computes \<open>\<alpha> = rsold / (p \<cdot> A p)\<close>, \<open>x += \<alpha> p\<close>, \<open>r -= \<alpha> A p\<close>,
  \<open>rsnew = r \<cdot> r\<close>, \<open>p = r + (rsnew / rsold) p\<close>.  There is no test on the residual;
  once a divisor is zero the result is \<open>DividedByZero\<close>, whatever the number of
  iterations that remain.
\<close>

definition vec :: "nat \<Rightarrow> (nat \<Rightarrow> real) \<Rightarrow> real list" where
  "vec n f = map f [0..<n]"

definition mat_vec :: "nat \<Rightarrow> (nat \<Rightarrow> nat \<Rightarrow> real) \<Rightarrow> real list \<Rightarrow> real list" where
  "mat_vec n A v = vec n (\<lambda>j. \<Sum>k<n. A j k * v ! k)"

fun cg_spec ::
  "nat \<Rightarrow> (nat \<Rightarrow> nat \<Rightarrow> real) \<Rightarrow> nat \<Rightarrow> real list \<times> real list \<times> real list \<times> real
     \<Rightarrow> real list computed" where
  "cg_spec n A 0 (x, r, p, rs) = Finite x"
| "cg_spec n A (Suc k) (x, r, p, rs) =
     (let Ap = mat_vec n A p
      in if vdot n p Ap = 0 \<or> rs = 0 then DividedByZero
         else
           (let alpha = rs / vdot n p Ap;
                x' = vec n (\<lambda>j. x ! j + alpha * p ! j);
                r' = vec n (\<lambda>j. r ! j - alpha * Ap ! j);
                rsnew = vdot n r' r';
                p' = vec n (\<lambda>j. r' ! j + rsnew / rs * p ! j)
            in cg_spec n A k (x', r', p', rsnew)))"

definition cg_solve ::
  "nat \<Rightarrow> (nat \<Rightarrow> nat \<Rightarrow> real) \<Rightarrow> (nat \<Rightarrow> real) \<Rightarrow> real list \<Rightarrow> nat \<Rightarrow> real list computed" where
  "cg_solve n A b x0 steps =
     (let Ax = mat_vec n A x0;
          r0 = vec n (\<lambda>j. b j - Ax ! j)
      in cg_spec n A steps (x0, r0, r0, vdot n r0 r0))"

section \<open>Concrete inputs\<close>

text \<open>
  Two users and two items with orthonormal item factors.  User 0 has no stored entry;
  user 1 has one stored entry, on item 1, with the value 0.  With no regularization the
  system of user 1 is singular.
\<close>

definition Yw :: mat where
  "Yw = \<lparr>shape1 = 2, rows = [[1, 0], [0, 1]]\<rparr>"

definition Xw :: mat where
  "Xw = \<lparr>shape1 = 2, rows = [[5, 7], [8, 9]]\<rparr>"

definition Cw :: csr where
  "Cw = \<lparr>indptr = [0, 0, 1], indices = [1], data = [0], shape = (2, 2), nnz = 1\<rparr>"

text \<open>
  Three users, two items, two factors: user 0 has item 0 with confidence 2, user 1 has
  no item and a zero factor row, user 2 has item 1 with confidence 3.
\<close>

definition Ys :: mat where
  "Ys = \<lparr>shape1 = 2, rows = [[1, 0], [1, 1]]\<rparr>"

definition Xs :: mat where
  "Xs = \<lparr>shape1 = 2, rows = [[1, 1], [0, 0], [1, 2]]\<rparr>"

definition Cs :: csr where
  "Cs = \<lparr>indptr = [0, 1, 1, 2], indices = [0, 1], data = [2, 3], shape = (3, 2), nnz = 2\<rparr>"

text \<open>
  One user and one item, where \<open>X\<close> has one factor and \<open>Y\<close> has two; and a
  row-pointer array that decreases.
\<close>

definition Xn :: mat where
  "Xn = \<lparr>shape1 = 1, rows = [[1]]\<rparr>"

definition Yn :: mat where
  "Yn = \<lparr>shape1 = 2, rows = [[1, 2]]\<rparr>"

definition Cn :: csr where
  "Cn = \<lparr>indptr = [0, 1], indices = [0], data = [2], shape = (1, 1), nnz = 1\<rparr>"

definition Cm :: csr where
  "Cm = \<lparr>indptr = [1, 0], indices = [0], data = [2], shape = (1, 2), nnz = 1\<rparr>"

definition Ym :: mat where
  "Ym = \<lparr>shape1 = 1, rows = [[1], [1]]\<rparr>"

text \<open>An item matrix with three factors, and the input on which Cholesky fails.\<close>

definition Y3 :: mat where
  "Y3 = \<lparr>shape1 = 3, rows = [[1, 2, 3]]\<rparr>"

definition Yc :: mat where
  "Yc = \<lparr>shape1 = 2, rows = [[2, 1]]\<rparr>"

definition Xc :: mat where
  "Xc = \<lparr>shape1 = 2, rows = [[0, 0]]\<rparr>"

definition Cc :: csr where
  "Cc = \<lparr>indptr = [0, 1], indices = [0], data = [1], shape = (1, 1), nnz = 1\<rparr>"

section \<open>Basic facts\<close>

lemma upt2: "[0..<2] = [0, Suc 0]" "[Suc 0..<2] = [Suc 0]" "[2..<2] = []" "[Suc (Suc 0)..<2] = []"
  by (simp_all add: upt_rec)

lemma upt1: "[0..<1] = [0]" "[1..<1] = []" "[Suc 0..<1] = []"
  by (simp_all add: upt_rec)

lemma upt3: "[0..<3] = [0, Suc 0, 2]" "[Suc 0..<3] = [Suc 0, 2]" "[2..<3] = [2]"
  by (simp_all add: upt_rec)

lemma rep2: "replicate 2 x = [x, x]" "replicate 1 x = [x]"
  by (simp_all add: numeral_2_eq_2)

lemmas inputs = Xw_def Yw_def Cw_def Xs_def Ys_def Cs_def Xn_def Yn_def Cn_def Cm_def Ym_def
  Y3_def Xc_def Yc_def Cc_def

lemmas ev = rep2 least_squares_def least_squares_user_def shared_status_def build_system_def
  direct_solve_def least_squares_schedule_def schedule_step_def running_def raised_def
  build_step_def row_range_def row_read_def mv_get_def mem_read_def memcpy_def flat_def py_range_def
  axpy_def axpy_at_def dot_def scal_def symv_def np_transpose_def np_dot_def np_eye_def np_scale_def
  np_add_def bdim_ok_def bdim_def bget_def shape0_def
  posv_ref_def gesv_ref_def potrs_def getrs_def back_subst_def idamax_col_def swap_rows_def
  least_squares_cg_def least_squares_cg_user_def cg_iteration_def residual_step_def Ap_step_def
  malloc_def calculate_loss_def calculate_loss_user_def calculate_loss_item_def loss_step_def
  Let_def upt1 upt2 upt3

subsection \<open>Only out-of-bounds accesses and the solver status end a user's iteration\<close>

lemma mv_get_Inl: "mv_get xs i = Inl e \<Longrightarrow> e = OutOfBounds"
  by (auto simp: mv_get_def Let_def split: if_splits)

lemma row_read_Inl: "row_read M i n = Inl e \<Longrightarrow> e = OutOfBounds"
  by (auto simp: row_read_def split: sum.splits if_splits dest: mv_get_Inl)

lemma mem_read_Inl: "mem_read buf n = Inl e \<Longrightarrow> e = OutOfBounds"
  by (auto simp: mem_read_def split: if_splits)

lemma row_range_Inl: "row_range Cui u = Inl e \<Longrightarrow> e = OutOfBounds"
  by (auto simp: row_range_def split: sum.splits dest: mv_get_Inl)

lemma row_loop_Inl: "row_loop body Cui Y n idxs s = Inl e \<Longrightarrow> e = OutOfBounds"
  by (induction idxs arbitrary: s)
     (auto split: sum.splits dest: mv_get_Inl row_read_Inl)

lemma build_system_Inl: "build_system Cui Y factors initialA initialB u = Inl e \<Longrightarrow> e = OutOfBounds"
  by (auto simp: build_system_def split: sum.splits dest: mem_read_Inl row_range_Inl row_loop_Inl)

lemma np_add_Inl: "np_add A B = Inl e \<Longrightarrow> e = BroadcastError"
  by (auto simp: np_add_def split: if_splits)

lemma least_squares_user_Inl:
  "least_squares_user posv gesv shared Cui Y factors initialA initialB u X = Inl e \<Longrightarrow>
     e = OutOfBounds \<or> (shared \<and> e = StatusRace) \<or>
     (\<exists>A b x err. build_system Cui Y factors initialA initialB u = Inr (A, b)
        \<and> direct_solve posv gesv factors A b = (x, err) \<and> err \<noteq> 0 \<and> e = SingularMatrix err u)"
  by (auto simp: least_squares_user_def split: sum.splits prod.splits if_splits
           dest: build_system_Inl)

lemma least_squares_user_Inr:
  "least_squares_user posv gesv shared Cui Y factors initialA initialB u X = Inr X' \<Longrightarrow>
     \<exists>A b x. build_system Cui Y factors initialA initialB u = Inr (A, b)
        \<and> direct_solve posv gesv factors A b = (x, 0)
        \<and> X' = X\<lparr>rows := (rows X)[u := memcpy (rows X ! u) x factors]\<rparr>"
  by (auto simp: least_squares_user_def split: sum.splits prod.splits if_splits)

lemma direct_solve_retry:
  "direct_solve posv gesv n A b =
     (case posv n A b of
        (A1, b1, err) \<Rightarrow>
          if err = 0 then (b1, 0)
          else (case gesv n A1 b1 of (A2, pivot, b2, err2) \<Rightarrow> (b2, err2)))"
  by (simp add: direct_solve_def split: prod.splits)

lemma direct_solve_same_contents:
  assumes "posv n A b = (A, b, err)" "err \<noteq> 0"
  shows "direct_solve posv gesv n A b = (case gesv n A b of (A2, pivot, b2, err2) \<Rightarrow> (b2, err2))"
  using assms by (simp add: direct_solve_def split: prod.splits)

lemma users_loop_singular:
  "distinct us \<Longrightarrow>
   users_loop (least_squares_user posv gesv shared Cui Y factors initialA initialB) us X
     = (X', Some (SingularMatrix err u)) \<Longrightarrow>
   u \<in> set us \<and> err \<noteq> 0 \<and> rows X' ! u = rows X ! u"
proof (induction us arbitrary: X)
  case Nil
  then show ?case by simp
next
  case (Cons v vs)
  let ?body = "least_squares_user posv gesv shared Cui Y factors initialA initialB"
  show ?case
  proof (cases "?body v X")
    case (Inl e)
    with Cons.prems(2) have "X' = X" "e = SingularMatrix err u" by simp_all
    with Inl least_squares_user_Inl[of posv gesv shared Cui Y factors initialA initialB v X e]
    show ?thesis by auto
  next
    case (Inr X1)
    with Cons.prems(2) have rec: "users_loop ?body vs X1 = (X', Some (SingularMatrix err u))"
      by simp
    from Cons.prems(1) have "distinct vs" "v \<notin> set vs" by simp_all
    with Cons.IH[OF _ rec] have ih: "u \<in> set vs" "err \<noteq> 0" "rows X' ! u = rows X1 ! u"
      by simp_all
    from ih(1) \<open>v \<notin> set vs\<close> have "u \<noteq> v" by auto
    moreover from least_squares_user_Inr[OF Inr] obtain x where
      "X1 = X\<lparr>rows := (rows X)[v := memcpy (rows X ! v) x factors]\<rparr>" by blast
    ultimately have "rows X1 ! u = rows X ! u" by simp
    with ih show ?thesis by simp
  qed
qed

lemma least_squares_user_shared_Inl:
  "least_squares_user posv gesv True Cui Y factors initialA initialB u X = Inl e \<Longrightarrow>
     e = OutOfBounds \<or> e = StatusRace"
  by (auto simp: least_squares_user_def direct_solve_def split: sum.splits prod.splits if_splits
           dest: build_system_Inl)

lemma users_loop_error:
  "users_loop body us s = (s', Some e) \<Longrightarrow> \<exists>u \<in> set us. \<exists>t. body u t = Inl e"
  by (induction us arbitrary: s) (auto split: sum.splits)

text \<open>
  Where the status is not shared, a call that fails for user \<open>u\<close> has left row \<open>u\<close>
  as it was; where it is shared, the model gives no singular-matrix error.
\<close>

lemma least_squares_singular_row:
  assumes "least_squares posv gesv Cui X Y regularization num_threads
             = (X', Some (SingularMatrix err u))"
  shows "u < shape0 X" "err \<noteq> 0" "rows X' ! u = rows X ! u"
    "\<not> shared_status num_threads (shape0 X)"
proof -
  from assms obtain initialA where
    l: "users_loop (least_squares_user posv gesv (shared_status num_threads (shape0 X)) Cui Y
          (shape1 X) initialA (replicate (shape1 X) 0))
       [0..<shape0 X] X = (X', Some (SingularMatrix err u))"
    by (auto simp: least_squares_def Let_def split: sum.splits dest: np_add_Inl)
  from users_loop_singular[OF _ l]
  show "u < shape0 X" "err \<noteq> 0" "rows X' ! u = rows X ! u" by simp_all
  show "\<not> shared_status num_threads (shape0 X)"
  proof
    assume "shared_status num_threads (shape0 X)"
    with users_loop_error[OF l] show False
      by (auto dest: least_squares_user_shared_Inl)
  qed
qed

lemma least_squares_Cw:
  "least_squares posv_ref gesv_ref Cw Xw Yw 0 1
     = (\<lparr>shape1 = 2, rows = [[0, 0], [8, 9]]\<rparr>, Some (SingularMatrix 2 1))"
  by (simp add: ev Yw_def Xw_def Cw_def)

subsection \<open>Accesses of well-formed inputs stay in bounds\<close>

lemma py_range_nat: "0 \<le> lo \<Longrightarrow> py_range lo hi = map int [nat lo..<nat hi]"
proof (induction "nat (hi - lo)" arbitrary: lo)
  case 0
  then show ?case by (simp add: py_range_def)
next
  case (Suc d)
  then have lt: "lo < hi" and d: "d = nat (hi - (lo + 1))" by linarith+
  from Suc.prems lt have "[nat lo..<nat hi] = nat lo # [nat (lo + 1)..<nat hi]"
    by (simp add: upt_conv_Cons nat_add_distrib)
  moreover from lt have "py_range lo hi = lo # py_range (lo + 1) hi"
    by (simp add: py_range_def upto_rec1)
  moreover from Suc.hyps(1)[OF d] Suc.prems
  have "py_range (lo + 1) hi = map int [nat (lo + 1)..<nat hi]" by simp
  ultimately show ?case using Suc.prems by simp
qed

lemma mv_get_nat: "k < length xs \<Longrightarrow> mv_get xs (int k) = Inr (xs ! k)"
  by (simp add: mv_get_def)

lemma wf_csr_indptr:
  assumes "wf_csr Cui users items" "u < users"
  shows "0 \<le> indptr Cui ! u" "indptr Cui ! u \<le> indptr Cui ! Suc u"
        "indptr Cui ! Suc u \<le> int (length (data Cui))"
proof -
  from assms have len: "length (indptr Cui) = users + 1" and z: "indptr Cui ! 0 = 0"
    and s: "sorted (indptr Cui)" and l: "last (indptr Cui) = int (length (data Cui))"
    by (simp_all add: wf_csr_def)
  from s len assms(2) have "indptr Cui ! 0 \<le> indptr Cui ! u"
    by (intro sorted_nth_mono) simp_all
  with z show "0 \<le> indptr Cui ! u" by simp
  from s len assms(2) show "indptr Cui ! u \<le> indptr Cui ! Suc u"
    by (intro sorted_nth_mono) simp_all
  from len have "last (indptr Cui) = indptr Cui ! users"
    by (subst last_conv_nth) auto
  moreover from s len assms(2) have "indptr Cui ! Suc u \<le> indptr Cui ! users"
    by (intro sorted_nth_mono) simp_all
  ultimately show "indptr Cui ! Suc u \<le> int (length (data Cui))" using l by simp
qed

lemma wf_row_range:
  assumes "wf_csr Cui users items" "u < users"
  shows "row_range Cui u = Inr (map int [nat (indptr Cui ! u)..<nat (indptr Cui ! Suc u)])"
proof -
  from assms have len: "length (indptr Cui) = users + 1" by (simp add: wf_csr_def)
  with assms(2) have "mv_get (indptr Cui) (int u) = Inr (indptr Cui ! u)"
    "mv_get (indptr Cui) (int u + 1) = Inr (indptr Cui ! Suc u)"
    using mv_get_nat[of u "indptr Cui"] mv_get_nat[of "Suc u" "indptr Cui"]
    by (simp_all add: add.commute)
  with wf_csr_indptr(1)[OF assms] show ?thesis
    by (simp add: row_range_def py_range_nat)
qed

lemma wf_row_read:
  assumes "rect Y" "i < shape0 Y"
  shows "row_read Y (int i) (shape1 Y) = Inr (rows Y ! i)"
proof -
  from assms have "length (rows Y ! i) = shape1 Y"
    by (simp add: rect_def shape0_def list_all_length)
  with assms(2) show ?thesis
    by (simp add: row_read_def mv_get_nat shape0_def)
qed

lemma wf_row_loop:
  assumes "rect Y" "length (indices Cui) = length (data Cui)"
    "list_all (\<lambda>i. 0 \<le> i \<and> i < int (shape0 Y)) (indices Cui)"
    "\<forall>k \<in> set ks. k < length (data Cui)"
  shows "row_loop body Cui Y (shape1 Y) (map int ks) s
         = Inr (foldl (\<lambda>s (i, c). body (rows Y ! i) c s) s
                  (map (\<lambda>k. (nat (indices Cui ! k), data Cui ! k)) ks))"
  using assms(4)
proof (induction ks arbitrary: s)
  case Nil
  then show ?case by simp
next
  case (Cons k ks)
  then have k: "k < length (data Cui)" by simp
  with assms(2,3) have i: "0 \<le> indices Cui ! k" "indices Cui ! k < int (shape0 Y)"
    by (simp_all add: list_all_length)
  then have "row_read Y (indices Cui ! k) (shape1 Y) = Inr (rows Y ! nat (indices Cui ! k))"
    using wf_row_read[OF assms(1), of "nat (indices Cui ! k)"] by simp
  with k assms(2) Cons show ?case
    by (simp add: mv_get_nat)
qed

lemma wf_user_range:
  assumes "wf_csr Cui users items" "u < users"
  shows "row_range Cui u = Inr (user_range Cui u)"
  using wf_row_range[OF assms] by (simp add: user_range_def)

lemma wf_user_loop:
  assumes "wf_csr Cui users (shape0 Y)" "rect Y" "u < users"
  shows "row_loop body Cui Y (shape1 Y) (user_range Cui u) s
           = Inr (foldl (\<lambda>s (i, c). body (rows Y ! i) c s) s (user_entries Cui u))"
proof -
  let ?ks = "[nat (indptr Cui ! u)..<nat (indptr Cui ! Suc u)]"
  from wf_csr_indptr[OF assms(1,3)] have "\<forall>k \<in> set ?ks. k < length (data Cui)" by auto
  with assms(1,2) have "row_loop body Cui Y (shape1 Y) (map int ?ks) s
         = Inr (foldl (\<lambda>s (i, c). body (rows Y ! i) c s) s (user_entries Cui u))"
    unfolding user_entries_def
    by (intro wf_row_loop) (simp_all add: wf_csr_def)
  then show ?thesis by (simp add: user_range_def)
qed

subsection \<open>Loop invariants\<close>

lemma row_loop_preserves:
  assumes "\<And>yi c s. P s \<Longrightarrow> P (body yi c s)" "P s" "row_loop body Cui Y n idxs s = Inr s'"
  shows "P s'"
  using assms(2,3)
  by (induction idxs arbitrary: s) (auto split: sum.splits intro: assms(1))

lemma users_loop_preserves:
  assumes "\<And>u s s'. P s \<Longrightarrow> body u s = Inr s' \<Longrightarrow> P s'" "P s"
  shows "P (fst (users_loop body us s))"
  using assms(2)
  by (induction us arbitrary: s) (auto split: sum.splits intro: assms(1))

lemma calculate_loss_user_frame:
  assumes "mX s = X \<and> mY s = Y" "calculate_loss_user Cui N YtY u s = Inr s'"
  shows "mX s' = X \<and> mY s' = Y"
proof -
  from assms(2) obtain a idxs s2 where
    loop: "row_loop (loss_step N (rows (mX s) ! u)) Cui (mY s) N idxs
            (s\<lparr>r_buf := symv (CHR ''U'') N 1 a N (rows (mX s) ! u) 0 (r_buf s)\<rparr>) = Inr s2"
    and s': "s' = s2\<lparr>loss := loss s2 + dot N (r_buf s2) (rows (mX s) ! u),
                     user_norm := user_norm s2 + dot N (rows (mX s) ! u) (rows (mX s) ! u)\<rparr>"
    by (auto simp: calculate_loss_user_def Let_def split: sum.splits)
  have "mX s2 = X \<and> mY s2 = Y"
    by (rule row_loop_preserves[OF _ _ loop]) (simp_all add: loss_step_def Let_def assms(1))
  with s' show ?thesis by simp
qed

lemma calculate_loss_item_frame:
  assumes "mX s = X \<and> mY s = Y" "calculate_loss_item N i s = Inr s'"
  shows "mX s' = X \<and> mY s' = Y"
  using assms by (auto simp: calculate_loss_item_def split: sum.splits)

subsection \<open>The prologue and the conjugate-gradient loop\<close>

lemma shape_gram [simp]:
  "shape0 (np_dot (np_transpose Y) Y) = shape1 Y"
  "shape1 (np_dot (np_transpose Y) Y) = shape1 Y"
  by (simp_all add: np_dot_def np_transpose_def shape0_def)

lemma shape_scaled_eye [simp]:
  "shape0 (np_scale c (np_eye n)) = n"
  "shape1 (np_scale c (np_eye n)) = n"
  by (simp_all add: np_scale_def np_eye_def shape0_def)

lemma prologue_mismatch:
  assumes "shape1 X \<noteq> shape1 Y" "shape1 X \<noteq> 1" "shape1 Y \<noteq> 1"
  shows "np_add (np_dot (np_transpose Y) Y) (np_scale c (np_eye (shape1 X))) = Inl BroadcastError"
  using assms by (auto simp: np_add_def bdim_ok_def)

lemma length_concat_grid:
  "length (concat (map (\<lambda>j. map (f j) [0..<n]) [0..<m])) = m * n"
  by (induction m) simp_all

lemma prologue_wf:
  assumes "shape1 Y = N"
  shows "\<exists>M. np_add (np_dot (np_transpose Y) Y) (np_scale c (np_eye N)) = Inr M
           \<and> length (flat M) = N * N"
  using assms by (simp add: np_add_def bdim_ok_def bdim_def flat_def length_concat_grid)

lemma list_update_same: "xs ! i = x \<Longrightarrow> xs[i := x] = xs"
  by (metis list_update_id)

lemma cg_loop_divided: "cg_loop step its DividedByZero = Inr DividedByZero"
  by (induction its) simp_all

lemma cg_user_nonpos:
  assumes "cg_steps \<le> 0" "least_squares_cg_user Cui Y N YtY cg_steps u X = Inr X'"
  shows "X' = X"
  using assms
  by (auto simp: least_squares_cg_user_def Let_def py_range_def list_update_same
      split: sum.splits computed.splits)

lemma wf_cg_user_nonpos:
  assumes "wf_csr Cui users (shape0 Y)" "rect Y" "u < users" "length (flat YtY) = shape1 Y * shape1 Y"
    "cg_steps \<le> 0"
  shows "least_squares_cg_user Cui Y (shape1 Y) YtY cg_steps u X = Inr X"
  using assms(5)
  by (simp add: least_squares_cg_user_def mem_read_def assms(4) wf_user_range[OF assms(1,3)]
        wf_user_loop[OF assms(1-3)] Let_def py_range_def list_update_same
      split: computed.splits)

lemma users_loop_all_Inr:
  assumes "\<And>u. u \<in> set us \<Longrightarrow> body u s = Inr s"
  shows "users_loop body us s = (s, None)"
  using assms by (induction us) simp_all

lemma users_loop_map:
  assumes "\<And>u Z. u < length rs \<Longrightarrow> length Z = length rs \<Longrightarrow> Z ! u = Finite (rs ! u)
             \<Longrightarrow> body u Z = Inr (Z[u := res u])"
    "k \<le> length rs"
  shows "users_loop body [k..<length rs] (map res [0..<k] @ map Finite (drop k rs))
         = (map res [0..<length rs], None)"
  using assms(2)
proof (induction "length rs - k" arbitrary: k)
  case 0
  then show ?case by simp
next
  case (Suc d)
  then have k: "k < length rs" by simp
  let ?Z = "map res [0..<k] @ map Finite (drop k rs)"
  have d: "drop k rs = rs ! k # drop (Suc k) rs"
    using k by (simp add: Cons_nth_drop_Suc)
  have "?Z ! k = Finite (rs ! k)"
    by (simp add: nth_append d)
  moreover have "length ?Z = length rs" using k by simp
  ultimately have "body k ?Z = Inr (?Z[k := res k])"
    using assms(1)[OF k] by blast
  moreover have "?Z[k := res k] = map res [0..<Suc k] @ map Finite (drop (Suc k) rs)"
    by (simp add: list_update_append d)
  moreover have "users_loop body [Suc k..<length rs]
                   (map res [0..<Suc k] @ map Finite (drop (Suc k) rs))
                 = (map res [0..<length rs], None)"
    using Suc.hyps(2) k by (intro Suc.hyps(1)) simp_all
  ultimately show ?case
    using k by (simp add: upt_conv_Cons)
qed

subsection \<open>The system assembled for one user\<close>

lemma length_axpy: "n \<le> length dx \<Longrightarrow> n \<le> length dy \<Longrightarrow> length (axpy n da dx dy) = length dy"
  by (simp add: axpy_def)

lemma nth_axpy:
  assumes "n \<le> length dx" "n \<le> length dy" "k < length dy"
  shows "axpy n da dx dy ! k = (if k < n then dy ! k + da * dx ! k else dy ! k)"
  using assms by (auto simp: axpy_def nth_append)

lemma length_axpy_at:
  "n \<le> length dx \<Longrightarrow> off + n \<le> length dy \<Longrightarrow> length (axpy_at n da dx off dy) = length dy"
  by (simp add: axpy_at_def length_axpy)

lemma nth_axpy_at:
  assumes "n \<le> length dx" "off + n \<le> length dy" "m < length dy"
  shows "axpy_at n da dx off dy ! m
         = (if off \<le> m \<and> m < off + n then dy ! m + da * dx ! (m - off) else dy ! m)"
proof (cases "m < off")
  case True
  with assms show ?thesis by (simp add: axpy_at_def nth_append)
next
  case False
  with assms have "axpy_at n da dx off dy ! m = axpy n da dx (drop off dy) ! (m - off)"
    by (simp add: axpy_at_def nth_append)
  also from assms False have "\<dots> = (if m - off < n then drop off dy ! (m - off) + da * dx ! (m - off)
                                else drop off dy ! (m - off))"
    by (intro nth_axpy) simp_all
  finally show ?thesis using False assms by auto
qed

lemma row_window:
  assumes "k < (n::nat)"
  shows "(j' * n \<le> j * n + k \<and> j * n + k < j' * n + n) \<longleftrightarrow> j' = j"
proof
  assume h: "j' * n \<le> j * n + k \<and> j * n + k < j' * n + n"
  show "j' = j"
  proof (rule ccontr)
    assume "j' \<noteq> j"
    then consider "j' < j" | "j < j'" by linarith
    then show False
    proof cases
      case 1
      then have "Suc j' * n \<le> j * n" by (intro mult_le_mono1) simp
      with h show False by simp
    next
      case 2
      then have "Suc j * n \<le> j' * n" by (intro mult_le_mono1) simp
      with h assms show False by simp
    qed
  qed
next
  assume "j' = j"
  with assms show "j' * n \<le> j * n + k \<and> j * n + k < j' * n + n" by simp
qed

lemma grid_index_less: "j < n \<Longrightarrow> k < n \<Longrightarrow> j * n + k < n * (n::nat)"
proof -
  assume a: "j < n" "k < n"
  then have "Suc j * n \<le> n * n" by (intro mult_le_mono1) simp
  with a show ?thesis by simp
qed

lemma rank1_rows:
  assumes "length y = n" "length A = n * n" "set js \<subseteq> {..<n}" "distinct js"
  shows "length (foldl (\<lambda>A j. axpy_at n (t * y ! j) y (j * n) A) A js) = n * n
       \<and> (\<forall>j<n. \<forall>k<n. foldl (\<lambda>A j. axpy_at n (t * y ! j) y (j * n) A) A js ! (j * n + k)
              = A ! (j * n + k) + (if j \<in> set js then t * y ! j * y ! k else 0))"
  using assms(2,3,4)
proof (induction js arbitrary: A)
  case Nil
  then show ?case by simp
next
  case (Cons i js)
  let ?A1 = "axpy_at n (t * y ! i) y (i * n) A"
  from Cons.prems have i: "i < n" "i \<notin> set js" by auto
  then have off: "i * n + n \<le> length A"
    using Cons.prems(1) mult_le_mono1[of "Suc i" n n] by simp
  have len1: "length ?A1 = n * n"
    using off assms(1) Cons.prems(1) by (simp add: length_axpy_at)
  have nth1: "?A1 ! (j * n + k) = A ! (j * n + k) + (if j = i then t * y ! i * y ! k else 0)"
    if "j < n" "k < n" for j k
  proof -
    from that Cons.prems(1) have "j * n + k < length A" by (simp add: grid_index_less)
    with off assms(1) have "?A1 ! (j * n + k)
       = (if i * n \<le> j * n + k \<and> j * n + k < i * n + n
          then A ! (j * n + k) + t * y ! i * y ! (j * n + k - i * n) else A ! (j * n + k))"
      by (intro nth_axpy_at) simp_all
    with row_window[OF that(2), of i j] show ?thesis by auto
  qed
  from Cons.IH[OF len1] Cons.prems i
  have ih: "length (foldl (\<lambda>A j. axpy_at n (t * y ! j) y (j * n) A) ?A1 js) = n * n"
    "\<And>j k. j < n \<Longrightarrow> k < n \<Longrightarrow>
       foldl (\<lambda>A j. axpy_at n (t * y ! j) y (j * n) A) ?A1 js ! (j * n + k)
         = ?A1 ! (j * n + k) + (if j \<in> set js then t * y ! j * y ! k else 0)"
    by auto
  show ?case
    using ih(1) ih(2) nth1 i by auto
qed

lemma build_step_entries:
  assumes "length y = n" "length A = n * n" "length b = n"
  shows "length (fst (build_step n y c (A, b))) = n * n"
    "length (snd (build_step n y c (A, b))) = n"
    "j < n \<Longrightarrow> k < n \<Longrightarrow>
       fst (build_step n y c (A, b)) ! (j * n + k) = A ! (j * n + k) + (c - 1) * y ! j * y ! k"
    "j < n \<Longrightarrow> snd (build_step n y c (A, b)) ! j = b ! j + c * y ! j"
proof -
  have js: "set [0..<n] \<subseteq> {..<n}" "distinct [0..<n]" by auto
  note r = rank1_rows[OF assms(1,2) js, of "c - 1"]
  show "length (fst (build_step n y c (A, b))) = n * n"
    using r by (simp add: build_step_def Let_def)
  show "length (snd (build_step n y c (A, b))) = n"
    using assms by (simp add: build_step_def Let_def length_axpy)
  show "fst (build_step n y c (A, b)) ! (j * n + k) = A ! (j * n + k) + (c - 1) * y ! j * y ! k"
    if "j < n" "k < n"
    using r that by (simp add: build_step_def Let_def)
  show "snd (build_step n y c (A, b)) ! j = b ! j + c * y ! j" if "j < n"
    using assms that by (simp add: build_step_def Let_def nth_axpy)
qed

lemma build_fold_entries:
  assumes "\<forall>(i, c) \<in> set es. length (Yr ! i) = n" "length A = n * n" "length b = n"
  shows "length (fst (foldl (\<lambda>s (i, c). build_step n (Yr ! i) c s) (A, b) es)) = n * n
    \<and> length (snd (foldl (\<lambda>s (i, c). build_step n (Yr ! i) c s) (A, b) es)) = n
    \<and> (\<forall>j<n. \<forall>k<n. fst (foldl (\<lambda>s (i, c). build_step n (Yr ! i) c s) (A, b) es) ! (j * n + k)
           = A ! (j * n + k) + (\<Sum>(i, c)\<leftarrow>es. (c - 1) * Yr ! i ! j * Yr ! i ! k))
    \<and> (\<forall>j<n. snd (foldl (\<lambda>s (i, c). build_step n (Yr ! i) c s) (A, b) es) ! j
           = b ! j + (\<Sum>(i, c)\<leftarrow>es. c * Yr ! i ! j))"
  using assms
proof (induction es arbitrary: A b)
  case Nil
  then show ?case by simp
next
  case (Cons e es)
  obtain i c where e: "e = (i, c)" by (cases e)
  from Cons.prems e have y: "length (Yr ! i) = n" by simp
  note s = build_step_entries[OF y Cons.prems(2,3), where c = c]
  obtain A1 b1 where ab: "build_step n (Yr ! i) c (A, b) = (A1, b1)"
    by (cases "build_step n (Yr ! i) c (A, b)")
  with s have l: "length A1 = n * n" "length b1 = n" by simp_all
  from Cons.prems(1) have rest: "\<forall>(i, c) \<in> set es. length (Yr ! i) = n" by simp
  from Cons.IH[OF rest l] s(3,4) ab e show ?case
    by (simp add: algebra_simps)
qed

lemma nth_concat_grid:
  "j < m \<Longrightarrow> k < n \<Longrightarrow> concat (map (\<lambda>j. map (f j) [0..<n]) [0..<m]) ! (j * n + k) = f j k"
proof (induction m)
  case 0
  then show ?case by simp
next
  case (Suc m)
  show ?case
  proof (cases "j < m")
    case True
    then have "Suc j * n \<le> m * n" by (intro mult_le_mono1) simp
    with Suc.prems have "j * n + k < m * n" by simp
    with Suc.IH[OF True Suc.prems(2)] show ?thesis
      by (simp add: nth_append length_concat_grid)
  next
    case False
    with Suc.prems have "j = m" by simp
    with Suc.prems show ?thesis
      by (simp add: nth_append length_concat_grid)
  qed
qed

lemma sum_list_zip_map:
  "(\<Sum>(a, r)\<leftarrow>zip (map f xs) xs. g a r) = (\<Sum>r\<leftarrow>xs. g (f r) r)"
  by (induction xs) simp_all

lemma gram_entry:
  assumes "j < shape1 Y" "k < shape1 Y"
  shows "rows (np_dot (np_transpose Y) Y) ! j ! k = gram Y j k"
  using assms
  by (simp add: np_dot_def np_transpose_def gram_def sum_list_zip_map)

lemma prologue_entries:
  assumes "shape1 Y = N"
  shows "\<exists>M. np_add (np_dot (np_transpose Y) Y) (np_scale c (np_eye N)) = Inr M
           \<and> length (flat M) = N * N
           \<and> (\<forall>j<N. \<forall>k<N. flat M ! (j * N + k) = gram Y j k + (if j = k then c else 0))"
proof -
  let ?G = "np_dot (np_transpose Y) Y" and ?E = "np_scale c (np_eye N)"
  have g: "bget ?G j k = gram Y j k" if "j < N" "k < N" for j k
    using that assms gram_entry[of j Y k] by (auto simp: bget_def)
  have e: "bget ?E j k = (if j = k then c else 0)" if "j < N" "k < N" for j k
    using that by (auto simp: bget_def np_scale_def np_eye_def shape0_def)
  let ?M = "\<lparr>shape1 = N, rows = map (\<lambda>j. map (\<lambda>k. bget ?G j k + bget ?E j k) [0..<N]) [0..<N]\<rparr>"
  have "np_add ?G ?E = Inr ?M"
    using assms by (simp add: np_add_def bdim_ok_def bdim_def)
  moreover have "length (flat ?M) = N * N"
    by (simp add: flat_def length_concat_grid)
  moreover have "flat ?M ! (j * N + k) = gram Y j k + (if j = k then c else 0)"
    if "j < N" "k < N" for j k
    using that g e by (simp add: flat_def nth_concat_grid)
  ultimately show ?thesis by blast
qed

lemma wf_rows:
  assumes "wf_csr Cui users (shape0 Y)" "rect Y" "u < users"
  shows "\<forall>(i, c) \<in> set (user_entries Cui u). i < shape0 Y \<and> length (rows Y ! i) = shape1 Y"
proof -
  have "i < shape0 Y \<and> length (rows Y ! i) = shape1 Y"
    if "k \<in> set [nat (indptr Cui ! u)..<nat (indptr Cui ! Suc u)]" "i = nat (indices Cui ! k)" for k i
  proof -
    from that wf_csr_indptr[OF assms(1,3)] have "k < length (data Cui)" by auto
    with assms(1) have "0 \<le> indices Cui ! k \<and> indices Cui ! k < int (shape0 Y)"
      by (simp add: wf_csr_def list_all_length)
    with that(2) have "i < shape0 Y" by linarith
    with assms(2) show ?thesis by (simp add: rect_def shape0_def list_all_length)
  qed
  then show ?thesis by (auto simp: user_entries_def)
qed

lemma wf_build_system:
  assumes "wf_csr Cui users (shape0 Y)" "rect Y" "u < users"
    "length (flat initialA) = shape1 Y * shape1 Y"
    "\<forall>j<shape1 Y. \<forall>k<shape1 Y.
       flat initialA ! (j * shape1 Y + k) = gram Y j k + (if j = k then regularization else 0)"
  shows "\<exists>A b. build_system Cui Y (shape1 Y) initialA (replicate (shape1 Y) 0) u = Inr (A, b)
     \<and> length A = shape1 Y * shape1 Y \<and> length b = shape1 Y
     \<and> (\<forall>j<shape1 Y. \<forall>k<shape1 Y.
          A ! (j * shape1 Y + k) = A_spec Y regularization (user_entries Cui u) j k)
     \<and> (\<forall>j<shape1 Y. b ! j = b_spec Y (user_entries Cui u) j)"
proof -
  let ?n = "shape1 Y"
  let ?s = "foldl (\<lambda>s (i, c). build_step ?n (rows Y ! i) c s) (flat initialA, replicate ?n 0)
              (user_entries Cui u)"
  have bs: "build_system Cui Y ?n initialA (replicate ?n 0) u = Inr ?s"
    by (simp add: build_system_def mem_read_def assms(4) wf_user_range[OF assms(1,3)]
          wf_user_loop[OF assms(1-3)])
  from wf_rows[OF assms(1-3)] have len: "\<forall>(i, c) \<in> set (user_entries Cui u). length (rows Y ! i) = ?n"
    by auto
  note f = build_fold_entries[OF len assms(4), of "replicate ?n 0", simplified]
  obtain A b where ab: "?s = (A, b)" by (cases ?s)
  with f assms(5) have "length A = ?n * ?n" "length b = ?n"
    "\<forall>j<?n. \<forall>k<?n. A ! (j * ?n + k) = A_spec Y regularization (user_entries Cui u) j k"
    "\<forall>j<?n. b ! j = b_spec Y (user_entries Cui u) j"
    by (simp_all add: A_spec_def b_spec_def)
  with bs ab show ?thesis by simp
qed

subsection \<open>The system of a user is symmetric positive definite\<close>

lemma quad_rank1_sum:
  fixes v :: "nat \<Rightarrow> real"
  shows "(\<Sum>j<n. \<Sum>k<n. v j * (\<Sum>x\<leftarrow>xs. w x * y x j * y x k) * v k)
         = (\<Sum>x\<leftarrow>xs. w x * (\<Sum>j<n. y x j * v j)\<^sup>2)"
proof (induction xs)
  case Nil
  then show ?case by simp
next
  case (Cons x xs)
  have "(\<Sum>j<n. \<Sum>k<n. v j * (\<Sum>x\<leftarrow>x # xs. w x * y x j * y x k) * v k)
      = (\<Sum>j<n. \<Sum>k<n. w x * ((y x j * v j) * (y x k * v k))
                        + v j * (\<Sum>x\<leftarrow>xs. w x * y x j * y x k) * v k)"
    by (intro sum.cong refl) (simp add: algebra_simps)
  also have "\<dots> = (\<Sum>j<n. \<Sum>k<n. w x * ((y x j * v j) * (y x k * v k)))
                + (\<Sum>j<n. \<Sum>k<n. v j * (\<Sum>x\<leftarrow>xs. w x * y x j * y x k) * v k)"
    by (simp add: sum.distrib)
  also have "(\<Sum>j<n. \<Sum>k<n. w x * ((y x j * v j) * (y x k * v k)))
           = w x * ((\<Sum>j<n. y x j * v j) * (\<Sum>k<n. y x k * v k))"
  proof -
    have "w x * ((\<Sum>j<n. y x j * v j) * (\<Sum>k<n. y x k * v k))
          = w x * (\<Sum>j<n. \<Sum>k<n. (y x j * v j) * (y x k * v k))"
      by (simp only: sum_product)
    also have "\<dots> = (\<Sum>j<n. \<Sum>k<n. w x * ((y x j * v j) * (y x k * v k)))"
      by (simp add: sum_distrib_left)
    finally show ?thesis by simp
  qed
  finally show ?case using Cons.IH by (simp add: power2_eq_square)
qed

lemma quad_A_spec:
  fixes v :: "nat \<Rightarrow> real"
  shows "(\<Sum>j<n. \<Sum>k<n. v j * A_spec Y c es j k * v k)
       = (\<Sum>r\<leftarrow>rows Y. (\<Sum>j<n. r ! j * v j)\<^sup>2) + c * (\<Sum>j<n. (v j)\<^sup>2)
         + (\<Sum>(i, w)\<leftarrow>es. (w - 1) * (\<Sum>j<n. rows Y ! i ! j * v j)\<^sup>2)"
proof -
  have g: "(\<Sum>j<n. \<Sum>k<n. v j * gram Y j k * v k) = (\<Sum>r\<leftarrow>rows Y. (\<Sum>j<n. r ! j * v j)\<^sup>2)"
    using quad_rank1_sum[where n = n and v = v and w = "\<lambda>r. 1" and y = "\<lambda>r j. r ! j" and xs = "rows Y"]
    by (simp add: gram_def)
  have d: "(\<Sum>j<n. \<Sum>k<n. v j * (if j = k then c else 0) * v k) = c * (\<Sum>j<n. (v j)\<^sup>2)"
  proof -
    have "(\<Sum>k<n. v j * (if j = k then c else 0) * v k) = c * (v j)\<^sup>2" if "j < n" for j
    proof -
      have "(\<Sum>k<n. v j * (if j = k then c else 0) * v k)
            = (\<Sum>k<n. if k = j then c * (v j)\<^sup>2 else 0)"
        by (intro sum.cong refl) (auto simp: power2_eq_square)
      also have "\<dots> = c * (v j)\<^sup>2" using that by simp
      finally show ?thesis .
    qed
    then have "(\<Sum>j<n. \<Sum>k<n. v j * (if j = k then c else 0) * v k) = (\<Sum>j<n. c * (v j)\<^sup>2)"
      by (intro sum.cong refl) simp
    then show ?thesis by (simp add: sum_distrib_left)
  qed
  have s: "(\<Sum>j<n. \<Sum>k<n. v j * (\<Sum>(i, w)\<leftarrow>es. (w - 1) * rows Y ! i ! j * rows Y ! i ! k) * v k)
         = (\<Sum>(i, w)\<leftarrow>es. (w - 1) * (\<Sum>j<n. rows Y ! i ! j * v j)\<^sup>2)"
    using quad_rank1_sum[where n = n and v = v and w = "\<lambda>e. snd e - 1"
        and y = "\<lambda>e j. rows Y ! fst e ! j" and xs = es]
    by (simp add: case_prod_unfold)
  have "(\<Sum>j<n. \<Sum>k<n. v j * A_spec Y c es j k * v k)
      = (\<Sum>j<n. \<Sum>k<n. v j * gram Y j k * v k + v j * (if j = k then c else 0) * v k
            + v j * (\<Sum>(i, w)\<leftarrow>es. (w - 1) * rows Y ! i ! j * rows Y ! i ! k) * v k)"
    unfolding A_spec_def by (intro sum.cong refl) (simp add: algebra_simps)
  also have "\<dots> = (\<Sum>j<n. \<Sum>k<n. v j * gram Y j k * v k)
      + (\<Sum>j<n. \<Sum>k<n. v j * (if j = k then c else 0) * v k)
      + (\<Sum>j<n. \<Sum>k<n. v j * (\<Sum>(i, w)\<leftarrow>es. (w - 1) * rows Y ! i ! j * rows Y ! i ! k) * v k)"
    by (simp add: sum.distrib)
  finally show ?thesis using g d s by simp
qed

lemma weighted_squares_nonneg:
  fixes q :: "nat \<Rightarrow> real"
  assumes "\<And>i. 0 \<le> q i" "\<forall>(i, w) \<in> set es. i < m \<and> 0 \<le> w" "distinct (map fst es)"
  shows "0 \<le> (\<Sum>i<m. q i) + (\<Sum>(i, w)\<leftarrow>es. (w - 1) * q i)"
proof -
  have "(\<Sum>(i, w)\<leftarrow>es. - q i) \<le> (\<Sum>(i, w)\<leftarrow>es. (w - 1) * q i)"
  proof (rule sum_list_mono)
    fix e assume "e \<in> set es"
    with assms(2) have "0 \<le> snd e" by auto
    then have "0 \<le> snd e * q (fst e)" using assms(1) by simp
    then show "(case e of (i, w) \<Rightarrow> - q i) \<le> (case e of (i, w) \<Rightarrow> (w - 1) * q i)"
      by (simp add: case_prod_unfold algebra_simps)
  qed
  moreover have "(\<Sum>(i, w)\<leftarrow>es. - q i) = - (\<Sum>i\<leftarrow>map fst es. q i)"
    by (induction es) auto
  moreover have "(\<Sum>i\<leftarrow>map fst es. q i) = (\<Sum>i\<in>set (map fst es). q i)"
    by (rule sum_list_distinct_conv_sum_set[OF assms(3)])
  moreover have "(\<Sum>i\<in>set (map fst es). q i) \<le> (\<Sum>i<m. q i)"
    using assms(1,2) by (intro sum_mono2) auto
  ultimately show ?thesis by linarith
qed

lemma A_spec_sym: "A_spec Y c es j k = A_spec Y c es k j"
proof -
  have "(\<Sum>(i, w)\<leftarrow>es. (w - 1) * rows Y ! i ! j * rows Y ! i ! k)
        = (\<Sum>(i, w)\<leftarrow>es. (w - 1) * rows Y ! i ! k * rows Y ! i ! j)"
    by (intro arg_cong[where f = sum_list] map_cong refl) (simp add: case_prod_unfold)
  moreover have "gram Y j k = gram Y k j"
    unfolding gram_def by (intro arg_cong[where f = sum_list] map_cong refl) simp
  ultimately show ?thesis by (auto simp: A_spec_def)
qed

lemma sum_squares_pos:
  fixes v :: "nat \<Rightarrow> real"
  assumes "j < n" "v j \<noteq> 0"
  shows "0 < (\<Sum>j<n. (v j)\<^sup>2)"
proof -
  have "(v j)\<^sup>2 \<le> (\<Sum>j<n. (v j)\<^sup>2)"
    using assms(1) by (intro member_le_sum) simp_all
  moreover have "0 < (v j)\<^sup>2" using assms(2) by simp
  ultimately show ?thesis by linarith
qed

lemma A_spec_pd:
  fixes v :: "nat \<Rightarrow> real"
  assumes "0 < c" "\<forall>(i, w) \<in> set es. i < length (rows Y) \<and> 0 \<le> w" "distinct (map fst es)"
    "j < n" "v j \<noteq> 0"
  shows "0 < (\<Sum>j<n. \<Sum>k<n. v j * A_spec Y c es j k * v k)"
proof -
  let ?q = "\<lambda>i. (\<Sum>j<n. rows Y ! i ! j * v j)\<^sup>2"
  have "(\<Sum>r\<leftarrow>rows Y. (\<Sum>j<n. r ! j * v j)\<^sup>2) = (\<Sum>i<length (rows Y). ?q i)"
    using sum_list_sum_nth[of "map (\<lambda>r. (\<Sum>j<n. r ! j * v j)\<^sup>2) (rows Y)"]
    by (simp add: atLeast0LessThan)
  moreover have "0 \<le> (\<Sum>i<length (rows Y). ?q i) + (\<Sum>(i, w)\<leftarrow>es. (w - 1) * ?q i)"
    by (rule weighted_squares_nonneg[OF _ assms(2,3)]) simp
  moreover have "0 < c * (\<Sum>j<n. (v j)\<^sup>2)"
    using assms(1) sum_squares_pos[of j n v] assms(4,5) by simp
  ultimately show ?thesis by (simp add: quad_A_spec)
qed

lemma pd_unique:
  fixes A :: "nat \<Rightarrow> nat \<Rightarrow> real"
  assumes pd: "\<And>v j. j < n \<Longrightarrow> v j \<noteq> 0 \<Longrightarrow> 0 < (\<Sum>j<n. \<Sum>k<n. v j * A j k * v k)"
    and "solves n A b x" "solves n A b x'"
  shows "x = x'"
proof -
  let ?d = "\<lambda>k. x ! k - x' ! k"
  have z: "(\<Sum>k<n. A j k * ?d k) = 0" if "j < n" for j
  proof -
    have "(\<Sum>k<n. A j k * ?d k) = (\<Sum>k<n. A j k * x ! k) - (\<Sum>k<n. A j k * x' ! k)"
      by (simp add: algebra_simps sum_subtractf)
    with assms(2,3) that show ?thesis by (simp add: solves_def)
  qed
  have "(\<Sum>j<n. \<Sum>k<n. ?d j * A j k * ?d k) = (\<Sum>j<n. ?d j * (\<Sum>k<n. A j k * ?d k))"
    by (simp add: sum_distrib_left mult.assoc)
  also have "\<dots> = 0" using z by simp
  finally have q: "(\<Sum>j<n. \<Sum>k<n. ?d j * A j k * ?d k) = 0" .
  have "?d j = 0" if "j < n" for j
  proof (rule ccontr)
    assume "?d j \<noteq> 0"
    from pd[of j ?d, OF that this] q show False by simp
  qed
  with assms(2,3) show ?thesis
    by (intro nth_equalityI) (simp_all add: solves_def)
qed

lemma direct_solve_spd:
  assumes "posv_contract posv n" "length A = n * n" "length b = n"
    "\<forall>j<n. \<forall>k<n. A ! (j * n + k) = M j k"
    "\<And>j k. M j k = M k j"
    "\<And>v j. j < n \<Longrightarrow> v j \<noteq> 0 \<Longrightarrow> 0 < (\<Sum>j<n. \<Sum>k<n. v j * M j k * v k)"
  shows "\<exists>x. direct_solve posv gesv n A b = (x, 0) \<and> snd (snd (posv n A b)) = 0
           \<and> solves n M (\<lambda>j. b ! j) x"
proof -
  have idx: "A ! (j + k * n) = M j k" if "j < n" "k < n" for j k
    using assms(4,5) that by (simp add: add.commute)
  have "spd n A"
    unfolding spd_def
  proof (intro conjI allI impI)
    fix j k assume "j < n" "k < n"
    then show "A ! (j + k * n) = A ! (k + j * n)" using idx assms(5) by simp
  next
    fix v :: "real list" assume v: "length v = n \<and> (\<exists>j<n. v ! j \<noteq> 0)"
    then obtain j where j: "j < n" "v ! j \<noteq> 0" by blast
    have "(\<Sum>j<n. \<Sum>k<n. v ! j * A ! (j + k * n) * v ! k) = (\<Sum>j<n. \<Sum>k<n. v ! j * M j k * v ! k)"
      by (intro sum.cong refl) (simp add: idx)
    with assms(6)[of j "\<lambda>j. v ! j", OF j] show "0 < (\<Sum>j<n. \<Sum>k<n. v ! j * A ! (j + k * n) * v ! k)"
      by simp
  qed
  with assms(1,2,3) obtain a' x where p: "posv n A b = (a', x, 0)" "length x = n"
    "\<forall>j<n. (\<Sum>k<n. A ! (j + k * n) * x ! k) = b ! j"
    unfolding posv_contract_def by blast
  have "(\<Sum>k<n. M j k * x ! k) = b ! j" if "j < n" for j
  proof -
    have "(\<Sum>k<n. M j k * x ! k) = (\<Sum>k<n. A ! (j + k * n) * x ! k)"
      using that by (intro sum.cong refl) (simp add: idx)
    with p(3) that show ?thesis by simp
  qed
  with p(1,2) show ?thesis by (simp add: direct_solve_def solves_def)
qed

subsection \<open>The direct solver on well-formed inputs\<close>

lemma wf_entries:
  assumes "wf_csr Cui users (shape0 Y)" "u < users" "wf_values Cui users"
  shows "\<forall>(i, w) \<in> set (user_entries Cui u). i < length (rows Y) \<and> 0 \<le> w"
    "distinct (map fst (user_entries Cui u))"
proof -
  have "i < length (rows Y) \<and> 0 \<le> w"
    if "k \<in> set [nat (indptr Cui ! u)..<nat (indptr Cui ! Suc u)]"
      "i = nat (indices Cui ! k)" "w = data Cui ! k" for k i w
  proof -
    from that wf_csr_indptr[OF assms(1,2)] have k: "k < length (data Cui)" by auto
    with assms(1) have "0 \<le> indices Cui ! k \<and> indices Cui ! k < int (shape0 Y)"
      by (simp add: wf_csr_def list_all_length)
    with that(2) have "i < shape0 Y" by linarith
    moreover from k assms(3) that(3) have "0 \<le> w"
      by (simp add: wf_values_def list_all_length)
    ultimately show ?thesis by (simp add: shape0_def)
  qed
  then show "\<forall>(i, w) \<in> set (user_entries Cui u). i < length (rows Y) \<and> 0 \<le> w"
    by (auto simp: user_entries_def)
  from assms(2,3) show "distinct (map fst (user_entries Cui u))"
    by (simp add: wf_values_def list_all_iff)
qed

lemma memcpy_full: "length src = n \<Longrightarrow> length dst = n \<Longrightarrow> memcpy dst src n = src"
  by (simp add: memcpy_def)

lemma wf_least_squares_user:
  assumes "wf_csr Cui users (shape0 Y)" "rect Y" "u < users" "wf_values Cui users"
    "0 < regularization" "posv_contract posv (shape1 Y)"
    "length (flat initialA) = shape1 Y * shape1 Y"
    "\<forall>j<shape1 Y. \<forall>k<shape1 Y.
       flat initialA ! (j * shape1 Y + k) = gram Y j k + (if j = k then regularization else 0)"
  shows "\<exists>x. solves (shape1 Y) (A_spec Y regularization (user_entries Cui u))
                (b_spec Y (user_entries Cui u)) x
     \<and> (\<forall>X. length (rows X ! u) = shape1 Y \<longrightarrow>
          least_squares_user posv gesv shared Cui Y (shape1 Y) initialA (replicate (shape1 Y) 0) u X
            = Inr (X\<lparr>rows := (rows X)[u := x]\<rparr>))"
proof -
  let ?n = "shape1 Y" and ?es = "user_entries Cui u"
  from wf_build_system[OF assms(1-3,7,8)] obtain A b where
    bs: "build_system Cui Y ?n initialA (replicate ?n 0) u = Inr (A, b)"
    and l: "length A = ?n * ?n" "length b = ?n"
    and A: "\<forall>j<?n. \<forall>k<?n. A ! (j * ?n + k) = A_spec Y regularization ?es j k"
    and b: "\<forall>j<?n. b ! j = b_spec Y ?es j"
    by blast
  note e = wf_entries[OF assms(1,3,4)]
  have pd: "0 < (\<Sum>j<?n. \<Sum>k<?n. v j * A_spec Y regularization ?es j k * v k)"
    if "j < ?n" "v j \<noteq> 0" for v :: "nat \<Rightarrow> real" and j
    using that by (rule A_spec_pd[OF assms(5) e])
  have "\<exists>x. direct_solve posv gesv ?n A b = (x, 0) \<and> snd (snd (posv ?n A b)) = 0
          \<and> solves ?n (A_spec Y regularization ?es) (\<lambda>j. b ! j) x"
  proof (rule direct_solve_spd[OF assms(6) l A])
    show "A_spec Y regularization ?es j k = A_spec Y regularization ?es k j" for j k
      by (rule A_spec_sym)
    show "0 < (\<Sum>j<?n. \<Sum>k<?n. v j * A_spec Y regularization ?es j k * v k)"
      if "j < ?n" "v j \<noteq> 0" for v :: "nat \<Rightarrow> real" and j
      using that by (rule pd)
  qed
  then obtain x where x: "direct_solve posv gesv ?n A b = (x, 0)"
    "solves ?n (A_spec Y regularization ?es) (\<lambda>j. b ! j) x"
    and st: "snd (snd (posv ?n A b)) = 0"
    by blast
  from x(2) b have s: "solves ?n (A_spec Y regularization ?es) (b_spec Y ?es) x"
    by (simp add: solves_def)
  then have lx: "length x = ?n" by (simp add: solves_def)
  have "least_squares_user posv gesv shared Cui Y ?n initialA (replicate ?n 0) u X
            = Inr (X\<lparr>rows := (rows X)[u := x]\<rparr>)" if "length (rows X ! u) = ?n" for X
    using bs x(1) st that lx by (simp add: least_squares_user_def memcpy_full)
  with s show ?thesis by blast
qed

lemma users_loop_rows:
  assumes "distinct us"
    "\<And>u. u \<in> set us \<Longrightarrow> length (sol u) = n
        \<and> (\<forall>X. length (rows X ! u) = n \<longrightarrow> body u X = Inr (X\<lparr>rows := (rows X)[u := sol u]\<rparr>))"
    "\<forall>u \<in> set us. u < length (rows X)" "\<forall>r \<in> set (rows X). length r = n"
  shows "\<exists>X'. users_loop body us X = (X', None) \<and> shape1 X' = shape1 X
      \<and> length (rows X') = length (rows X)
      \<and> (\<forall>u \<in> set us. rows X' ! u = sol u)
      \<and> (\<forall>u. u \<notin> set us \<longrightarrow> rows X' ! u = rows X ! u)"
  using assms
proof (induction us arbitrary: X)
  case Nil
  then show ?case by simp
next
  case (Cons v vs)
  let ?X1 = "X\<lparr>rows := (rows X)[v := sol v]\<rparr>"
  from Cons.prems have v: "v < length (rows X)" "v \<notin> set vs" "distinct vs" by simp_all
  with Cons.prems(4) have "length (rows X ! v) = n" by simp
  with Cons.prems(2)[of v] have step: "body v X = Inr ?X1" and lv: "length (sol v) = n" by simp_all
  have r1: "\<forall>r \<in> set (rows ?X1). length r = n"
    using Cons.prems(4) lv by (auto dest!: set_update_subset_insert[THEN subsetD])
  have "\<exists>X'. users_loop body vs ?X1 = (X', None) \<and> shape1 X' = shape1 ?X1
      \<and> length (rows X') = length (rows ?X1)
      \<and> (\<forall>u \<in> set vs. rows X' ! u = sol u)
      \<and> (\<forall>u. u \<notin> set vs \<longrightarrow> rows X' ! u = rows ?X1 ! u)"
    using Cons.prems(2,3) r1 by (intro Cons.IH[OF v(3)]) simp_all
  then obtain X' where X': "users_loop body vs ?X1 = (X', None)" "shape1 X' = shape1 X"
    "length (rows X') = length (rows X)" "\<forall>u \<in> set vs. rows X' ! u = sol u"
    "\<forall>u. u \<notin> set vs \<longrightarrow> rows X' ! u = rows ?X1 ! u"
    by auto
  from X'(5) v have "rows X' ! v = sol v" by simp
  moreover from X'(5) have "\<forall>u. u \<notin> set (v # vs) \<longrightarrow> rows X' ! u = rows X ! u" by simp
  ultimately show ?case using step X' by auto
qed

lemma wf_unique:
  assumes "wf_input Cui X Y" "wf_values Cui (shape0 X)" "0 < regularization" "u < shape0 X"
    "solves n (A_spec Y regularization (user_entries Cui u)) b x"
    "solves n (A_spec Y regularization (user_entries Cui u)) b x'"
  shows "x = x'"
proof -
  from assms(1) have c: "wf_csr Cui (shape0 X) (shape0 Y)" by (simp add: wf_input_def)
  note e = wf_entries[OF c assms(4,2)]
  show ?thesis
  proof (rule pd_unique[OF _ assms(5,6)])
    show "0 < (\<Sum>j<n. \<Sum>k<n. v j * A_spec Y regularization (user_entries Cui u) j k * v k)"
      if "j < n" "v j \<noteq> 0" for v :: "nat \<Rightarrow> real" and j
      using that by (rule A_spec_pd[OF assms(3) e])
  qed
qed

lemma least_squares_core:
  assumes "wf_input Cui X Y" "wf_values Cui (shape0 X)" "0 < regularization"
    "posv_contract posv (shape1 X)"
  shows "\<exists>X'. least_squares posv gesv Cui X Y regularization num_threads = (X', None)
      \<and> shape0 X' = shape0 X \<and> shape1 X' = shape1 X
      \<and> (\<forall>u<shape0 X. solves (shape1 X) (A_spec Y regularization (user_entries Cui u))
                         (b_spec Y (user_entries Cui u)) (rows X' ! u))"
proof -
  let ?n = "shape1 X" and ?m = "shape0 X"
  from assms(1) have c: "wf_csr Cui ?m (shape0 Y)" and r: "rect Y" and e: "shape1 Y = ?n"
    and rx: "rect X"
    by (simp_all add: wf_input_def)
  from prologue_entries[OF e, of regularization] obtain M where
    M: "np_add (np_dot (np_transpose Y) Y) (np_scale regularization (np_eye ?n)) = Inr M"
    and l: "length (flat M) = shape1 Y * shape1 Y"
    and en: "\<forall>j<shape1 Y. \<forall>k<shape1 Y.
       flat M ! (j * shape1 Y + k) = gram Y j k + (if j = k then regularization else 0)"
    unfolding e by blast
  let ?body = "least_squares_user posv gesv (shared_status num_threads ?m) Cui Y ?n M
                 (replicate ?n 0)"
  let ?P = "\<lambda>u x. solves ?n (A_spec Y regularization (user_entries Cui u))
                (b_spec Y (user_entries Cui u)) x
     \<and> (\<forall>X. length (rows X ! u) = ?n \<longrightarrow> ?body u X = Inr (X\<lparr>rows := (rows X)[u := x]\<rparr>))"
  have "\<forall>u \<in> {..<?m}. \<exists>x. ?P u x"
  proof
    fix u assume "u \<in> {..<?m}"
    then have u: "u < ?m" by simp
    from assms(4) e have p: "posv_contract posv (shape1 Y)" by simp
    from wf_least_squares_user[OF c r u assms(2,3) p l en, of gesv "shared_status num_threads ?m"] e
    show "\<exists>x. ?P u x" by simp
  qed
  from bchoice[OF this] obtain sol where sol: "\<forall>u \<in> {..<?m}. ?P u (sol u)" by blast
  have "\<exists>X'. users_loop ?body [0..<?m] X = (X', None) \<and> shape1 X' = shape1 X
      \<and> length (rows X') = length (rows X)
      \<and> (\<forall>u \<in> set [0..<?m]. rows X' ! u = sol u)
      \<and> (\<forall>u. u \<notin> set [0..<?m] \<longrightarrow> rows X' ! u = rows X ! u)"
  proof (rule users_loop_rows[where n = ?n])
    show "distinct [0..<?m]" by simp
    show "\<forall>u \<in> set [0..<?m]. u < length (rows X)" by (simp add: shape0_def)
    show "\<forall>r \<in> set (rows X). length r = ?n" using rx by (simp add: rect_def list_all_iff)
    show "length (sol u) = ?n
        \<and> (\<forall>X. length (rows X ! u) = ?n \<longrightarrow> ?body u X = Inr (X\<lparr>rows := (rows X)[u := sol u]\<rparr>))"
      if "u \<in> set [0..<?m]" for u
      using sol that by (simp add: solves_def)
  qed
  then obtain X' where X': "users_loop ?body [0..<?m] X = (X', None)" "shape1 X' = shape1 X"
    "length (rows X') = length (rows X)" "\<forall>u \<in> set [0..<?m]. rows X' ! u = sol u"
    by blast
  from X'(4) sol have "\<forall>u<?m. solves ?n (A_spec Y regularization (user_entries Cui u))
                         (b_spec Y (user_entries Cui u)) (rows X' ! u)"
    by simp
  with X' M show ?thesis by (simp add: least_squares_def Let_def shape0_def)
qed

subsection \<open>Schedules on which every status is zero\<close>

text \<open>
  Where \<open>posv\<close> reports 0 for every user, every schedule of every team that runs all
  iterations to their end leaves the matrix that \<open>least_squares\<close> returns; on a
  well-formed input with positive regularization this is the case.
\<close>

lemma schedule_step_ok:
  assumes ok: "team_ok posv n (build_system Cui Y n initialA initialB) X t"
    and zero: "\<And>u A b. u < length (rows X) \<Longrightarrow> build_system Cui Y n initialA initialB u = Inr (A, b)
                 \<Longrightarrow> snd (snd (posv n A b)) = 0"
    and step: "schedule_step posv gesv threads Cui Y n initialA initialB u t = Some t'"
  shows "team_ok posv n (build_system Cui Y n initialA initialB) X t'"
proof -
  let ?sys = "build_system Cui Y n initialA initialB"
  let ?its = "team_iterations t"
  from step have u: "u < length ?its"
    by (auto simp: schedule_step_def split: if_splits)
  from ok have len: "length ?its = length (rows X)" "length (rows (team_X t)) = length (rows X)"
    "shape1 (team_X t) = shape1 X"
    and err: "(\<exists>i \<in> set ?its. i \<noteq> NotStarted) \<Longrightarrow> team_err t = 0"
    and its: "\<And>v. v < length (rows X) \<Longrightarrow>
                iteration_ok posv n (?sys v) (rows X ! v) (rows (team_X t) ! v) (?its ! v)"
    by (auto simp: team_ok_def)
  from u len have ux: "u < length (rows X)" by simp
  note iu = its[OF ux]
  have started: "team_err t = 0" if "?its ! u \<noteq> NotStarted"
    using that u by (intro err bexI[of _ "?its ! u"]) simp_all
  have upd: "team_ok posv n ?sys X
               (t\<lparr>team_err := 0, team_iterations := ?its[u := i]\<rparr>)"
    if i: "iteration_ok posv n (?sys u) (rows X ! u) (rows (team_X t) ! u) i" for i
  proof -
    have "iteration_ok posv n (?sys v) (rows X ! v) (rows (team_X t) ! v) ((?its[u := i]) ! v)"
      if v: "v < length (rows X)" for v
      using its[OF v] i u by (cases "v = u") simp_all
    with len show ?thesis by (simp add: team_ok_def)
  qed
  show ?thesis
  proof (cases "?its ! u")
    case NotStarted
    with step u obtain A b A1 b1 e where
      sys: "?sys u = Inr (A, b)" and p: "posv n A b = (A1, b1, e)"
      and t': "t' = t\<lparr>team_err := e, team_iterations := ?its[u := Factored A1 b1]\<rparr>"
      by (auto simp: schedule_step_def split: if_splits sum.splits prod.splits)
    from zero[OF ux sys] p have e: "e = 0" by simp
    from iu NotStarted sys p e
    have "iteration_ok posv n (?sys u) (rows X ! u) (rows (team_X t) ! u) (Factored A1 b1)"
      by (simp add: iteration_ok_def)
    from upd[OF this] show ?thesis by (simp add: t' e)
  next
    case (Factored A1 b1)
    with started have z: "team_err t = 0" by simp
    with step u Factored have t': "t' = t\<lparr>team_iterations := ?its[u := Solved b1]\<rparr>"
      by (simp add: schedule_step_def)
    from iu Factored
    have "iteration_ok posv n (?sys u) (rows X ! u) (rows (team_X t) ! u) (Solved b1)"
      by (auto simp: iteration_ok_def)
    moreover have "t\<lparr>team_iterations := ?its[u := Solved b1]\<rparr>
        = t\<lparr>team_err := 0, team_iterations := ?its[u := Solved b1]\<rparr>"
      using z by (cases t) simp
    ultimately show ?thesis using upd by (simp add: t')
  next
    case (Solved b1)
    with started have z: "team_err t = 0" by simp
    let ?X1 = "(team_X t)\<lparr>rows := (rows (team_X t))[u := memcpy (rows (team_X t) ! u) b1 n]\<rparr>"
    from z step u Solved have t': "t' = t\<lparr>team_X := ?X1, team_iterations := ?its[u := Stored]\<rparr>"
      by (simp add: schedule_step_def)
    from iu Solved have row: "rows (team_X t) ! u = rows X ! u"
      and sys: "\<exists>A b A1. ?sys u = Inr (A, b) \<and> posv n A b = (A1, b1, 0)"
      by (auto simp: iteration_ok_def)
    have "iteration_ok posv n (?sys v) (rows X ! v) (rows ?X1 ! v) ((?its[u := Stored]) ! v)"
      if v: "v < length (rows X)" for v
    proof (cases "v = u")
      case True
      with sys row ux len show ?thesis by (auto simp: iteration_ok_def)
    next
      case False
      with its[OF v] show ?thesis by simp
    qed
    moreover have "team_err t' = 0" using z t' by simp
    ultimately show ?thesis
      unfolding team_ok_def t' using len by simp
  next
    case Stored
    with step u show ?thesis by (simp add: schedule_step_def)
  next
    case (Raised e)
    with step u show ?thesis by (simp add: schedule_step_def)
  qed
qed

lemma run_schedule_ok:
  assumes "\<And>u t t'. P t \<Longrightarrow> step u t = Some t' \<Longrightarrow> P t'" "P t" "run_schedule step us t = Some t'"
  shows "P t'"
  using assms(2,3)
  by (induction us arbitrary: t) (auto split: option.splits dest: assms(1))

lemma users_loop_stored:
  fixes X :: mat and body :: "nat \<Rightarrow> mat \<Rightarrow> error + mat"
  assumes "\<And>u Z. u < length (rows X) \<Longrightarrow> rows Z ! u = rows X ! u \<Longrightarrow>
             body u Z = Inr (Z\<lparr>rows := (rows Z)[u := new u]\<rparr>)"
    "k \<le> length (rows X)"
  shows "users_loop body [k..<length (rows X)]
           \<lparr>shape1 = shape1 X, rows = map new [0..<k] @ drop k (rows X)\<rparr>
         = (\<lparr>shape1 = shape1 X, rows = map new [0..<length (rows X)]\<rparr>, None)"
  using assms(2)
proof (induction "length (rows X) - k" arbitrary: k)
  case 0
  then show ?case by simp
next
  case (Suc d)
  then have k: "k < length (rows X)" by simp
  have dr: "drop k (rows X) = rows X ! k # drop (Suc k) (rows X)"
    using k by (simp add: Cons_nth_drop_Suc)
  let ?Z = "\<lparr>shape1 = shape1 X, rows = map new [0..<k] @ drop k (rows X)\<rparr>"
  have "rows ?Z ! k = rows X ! k"
    by (simp add: nth_append dr)
  from assms(1)[OF k this] have b: "body k ?Z = Inr (?Z\<lparr>rows := (rows ?Z)[k := new k]\<rparr>)" .
  have r1: "?Z\<lparr>rows := (rows ?Z)[k := new k]\<rparr>
      = \<lparr>shape1 = shape1 X, rows = map new [0..<Suc k] @ drop (Suc k) (rows X)\<rparr>"
    by (simp add: list_update_append dr)
  have "users_loop body [Suc k..<length (rows X)]
           \<lparr>shape1 = shape1 X, rows = map new [0..<Suc k] @ drop (Suc k) (rows X)\<rparr>
         = (\<lparr>shape1 = shape1 X, rows = map new [0..<length (rows X)]\<rparr>, None)"
    using Suc.hyps(2) k by (intro Suc.hyps(1)) simp_all
  with b r1 k show ?case by (simp add: upt_conv_Cons)
qed

lemma least_squares_schedule_agrees:
  assumes zero: "\<And>u initialA A b. u < shape0 X \<Longrightarrow>
         np_add (np_dot (np_transpose Y) Y) (np_scale regularization (np_eye (shape1 X)))
           = Inr initialA \<Longrightarrow>
         build_system Cui Y (shape1 X) initialA (replicate (shape1 X) 0) u = Inr (A, b)
         \<Longrightarrow> snd (snd (posv (shape1 X) A b)) = 0"
    and run: "least_squares_schedule posv gesv threads err0 schedule Cui X Y regularization = Some t"
    and stored: "\<forall>i \<in> set (team_iterations t). i = Stored"
  shows "least_squares posv gesv Cui X Y regularization num_threads = (team_X t, None)"
proof -
  let ?n = "shape1 X" and ?m = "length (rows X)"
  from run obtain initialA where
    M: "np_add (np_dot (np_transpose Y) Y) (np_scale regularization (np_eye ?n)) = Inr initialA"
    and r: "run_schedule (schedule_step posv gesv threads Cui Y ?n initialA (replicate ?n 0)) schedule
              \<lparr>team_X = X, team_err = err0, team_iterations = replicate (shape0 X) NotStarted\<rparr>
            = Some t"
    by (auto simp: least_squares_schedule_def Let_def split: sum.splits)
  let ?sys = "build_system Cui Y ?n initialA (replicate ?n 0)"
  have init: "team_ok posv ?n ?sys X
          \<lparr>team_X = X, team_err = err0, team_iterations = replicate (shape0 X) NotStarted\<rparr>"
    by (simp add: team_ok_def iteration_ok_def shape0_def)
  have ok: "team_ok posv ?n ?sys X t"
  proof (rule run_schedule_ok[where P = "team_ok posv ?n ?sys X", OF _ init r])
    fix u t1 t2
    assume a: "team_ok posv ?n ?sys X t1"
      and b: "schedule_step posv gesv threads Cui Y ?n initialA (replicate ?n 0) u t1 = Some t2"
    show "team_ok posv ?n ?sys X t2"
      by (rule schedule_step_ok[OF a _ b]) (rule zero[OF _ M], simp_all add: shape0_def)
  qed
  then have len: "length (team_iterations t) = ?m" "length (rows (team_X t)) = ?m"
    "shape1 (team_X t) = ?n"
    by (simp_all add: team_ok_def)
  have row: "\<exists>A b A1 b1. ?sys u = Inr (A, b) \<and> posv ?n A b = (A1, b1, 0)
               \<and> rows (team_X t) ! u = memcpy (rows X ! u) b1 ?n" if u: "u < ?m" for u
  proof -
    from u len stored have "team_iterations t ! u = Stored" by simp
    moreover from ok u
    have "iteration_ok posv ?n (?sys u) (rows X ! u) (rows (team_X t) ! u) (team_iterations t ! u)"
      by (simp add: team_ok_def)
    ultimately show ?thesis by (simp add: iteration_ok_def)
  qed
  let ?body = "least_squares_user posv gesv (shared_status num_threads (shape0 X)) Cui Y ?n initialA
                 (replicate ?n 0)"
  have "users_loop ?body [0..<?m]
           \<lparr>shape1 = ?n, rows = map (\<lambda>u. rows (team_X t) ! u) [0..<0] @ drop 0 (rows X)\<rparr>
         = (\<lparr>shape1 = ?n, rows = map (\<lambda>u. rows (team_X t) ! u) [0..<?m]\<rparr>, None)"
  proof (rule users_loop_stored)
    fix u and Z :: mat
    assume u: "u < ?m" and z: "rows Z ! u = rows X ! u"
    from row[OF u] obtain A b A1 b1 where
      s: "?sys u = Inr (A, b)" "posv ?n A b = (A1, b1, 0)"
      "rows (team_X t) ! u = memcpy (rows X ! u) b1 ?n"
      by blast
    then show "?body u Z = Inr (Z\<lparr>rows := (rows Z)[u := rows (team_X t) ! u]\<rparr>)"
      by (simp add: least_squares_user_def direct_solve_def z)
  qed simp
  moreover have "\<lparr>shape1 = ?n, rows = map (\<lambda>u. rows (team_X t) ! u) [0..<?m]\<rparr> = team_X t"
  proof -
    have "map (\<lambda>u. rows (team_X t) ! u) [0..<length (rows (team_X t))] = rows (team_X t)"
      by (rule map_nth)
    with len show ?thesis by (cases "team_X t") simp
  qed
  moreover have "\<lparr>shape1 = ?n, rows = rows X\<rparr> = X"
    by (cases X) simp
  ultimately show ?thesis
    using M by (simp add: least_squares_def Let_def shape0_def)
qed

lemma wf_posv_status:
  assumes "wf_csr Cui users (shape0 Y)" "rect Y" "u < users" "wf_values Cui users"
    "0 < regularization" "posv_contract posv (shape1 Y)"
    "length (flat initialA) = shape1 Y * shape1 Y"
    "\<forall>j<shape1 Y. \<forall>k<shape1 Y.
       flat initialA ! (j * shape1 Y + k) = gram Y j k + (if j = k then regularization else 0)"
    "build_system Cui Y (shape1 Y) initialA (replicate (shape1 Y) 0) u = Inr (A, b)"
  shows "snd (snd (posv (shape1 Y) A b)) = 0"
proof -
  let ?n = "shape1 Y" and ?es = "user_entries Cui u"
  from wf_build_system[OF assms(1-3,7,8)] assms(9) have
    l: "length A = ?n * ?n" "length b = ?n"
    and A: "\<forall>j<?n. \<forall>k<?n. A ! (j * ?n + k) = A_spec Y regularization ?es j k"
    by auto
  note e = wf_entries[OF assms(1,3,4)]
  have "\<exists>x. direct_solve posv (\<lambda>n a b. (a, [], b, 0)) ?n A b = (x, 0)
          \<and> snd (snd (posv ?n A b)) = 0
          \<and> solves ?n (A_spec Y regularization ?es) (\<lambda>j. b ! j) x"
  proof (rule direct_solve_spd[OF assms(6) l A])
    show "A_spec Y regularization ?es j k = A_spec Y regularization ?es k j" for j k
      by (rule A_spec_sym)
    show "0 < (\<Sum>j<?n. \<Sum>k<?n. v j * A_spec Y regularization ?es j k * v k)"
      if "j < ?n" "v j \<noteq> 0" for v :: "nat \<Rightarrow> real" and j
      using that by (rule A_spec_pd[OF assms(5) e])
  qed
  then show ?thesis by blast
qed

lemma least_squares_any_schedule:
  assumes "wf_input Cui X Y" "wf_values Cui (shape0 X)" "0 < regularization"
    "posv_contract posv (shape1 X)"
    "least_squares_schedule posv gesv threads err0 schedule Cui X Y regularization = Some t"
    "\<forall>i \<in> set (team_iterations t). i = Stored"
  shows "least_squares posv gesv Cui X Y regularization num_threads = (team_X t, None)"
proof (rule least_squares_schedule_agrees[OF _ assms(5,6)])
  fix u initialA A b
  assume u: "u < shape0 X"
    and M: "np_add (np_dot (np_transpose Y) Y) (np_scale regularization (np_eye (shape1 X)))
              = Inr initialA"
    and bs: "build_system Cui Y (shape1 X) initialA (replicate (shape1 X) 0) u = Inr (A, b)"
  from assms(1) have c: "wf_csr Cui (shape0 X) (shape0 Y)" and r: "rect Y"
    and e: "shape1 Y = shape1 X"
    by (simp_all add: wf_input_def)
  from prologue_entries[OF e, of regularization] M have
    l: "length (flat initialA) = shape1 Y * shape1 Y"
    and en: "\<forall>j<shape1 Y. \<forall>k<shape1 Y.
       flat initialA ! (j * shape1 Y + k) = gram Y j k + (if j = k then regularization else 0)"
    unfolding e by auto
  from assms(4) e have p: "posv_contract posv (shape1 Y)" by simp
  from wf_posv_status[OF c r u assms(2,3) p l en] bs e
  show "snd (snd (posv (shape1 X) A b)) = 0" by simp
qed

text \<open>
  Whatever the schedule, a row is written by its own iteration only, and an iteration
  that raises has not written: the row of a user whose iteration raised is as it was.
\<close>

lemma schedule_step_rows:
  assumes "length (team_iterations t) = length (rows (team_X t))"
    "\<forall>v<length (rows (team_X t)). team_iterations t ! v \<noteq> Stored \<longrightarrow> rows (team_X t) ! v = R ! v"
    "schedule_step posv gesv threads Cui Y n initialA initialB u t = Some t'"
  shows "length (team_iterations t') = length (rows (team_X t'))
    \<and> length (rows (team_X t')) = length (rows (team_X t))
    \<and> (\<forall>v<length (rows (team_X t')). team_iterations t' ! v \<noteq> Stored \<longrightarrow> rows (team_X t') ! v = R ! v)"
proof -
  from assms(3) have u: "u < length (team_iterations t)"
    by (auto simp: schedule_step_def split: if_splits)
  show ?thesis
  proof (cases "team_iterations t ! u")
    case NotStarted
    with assms u show ?thesis
      by (auto simp: schedule_step_def nth_list_update split: if_splits sum.splits prod.splits)
  next
    case (Factored A b)
    with assms u show ?thesis
      by (auto simp: schedule_step_def nth_list_update split: if_splits prod.splits)
  next
    case (Solved b)
    with assms u show ?thesis
      by (auto simp: schedule_step_def nth_list_update split: if_splits)
  next
    case Stored
    with assms(3) u show ?thesis by (simp add: schedule_step_def)
  next
    case (Raised e)
    with assms(3) u show ?thesis by (simp add: schedule_step_def)
  qed
qed

lemma schedule_raised_row:
  assumes "least_squares_schedule posv gesv threads err0 schedule Cui X Y regularization = Some t"
    "u < shape0 X" "team_iterations t ! u = Raised err"
  shows "rows (team_X t) ! u = rows X ! u"
proof -
  let ?n = "shape1 X"
  from assms(1) obtain initialA where
    r: "run_schedule (schedule_step posv gesv threads Cui Y ?n initialA (replicate ?n 0)) schedule
              \<lparr>team_X = X, team_err = err0, team_iterations = replicate (shape0 X) NotStarted\<rparr>
            = Some t"
    by (auto simp: least_squares_schedule_def Let_def split: sum.splits)
  let ?P = "\<lambda>t. length (team_iterations t) = length (rows (team_X t))
    \<and> length (rows (team_X t)) = length (rows X)
    \<and> (\<forall>v<length (rows (team_X t)). team_iterations t ! v \<noteq> Stored \<longrightarrow> rows (team_X t) ! v = rows X ! v)"
  have "?P t"
  proof (rule run_schedule_ok[where P = ?P, OF _ _ r])
    show "?P \<lparr>team_X = X, team_err = err0, team_iterations = replicate (shape0 X) NotStarted\<rparr>"
      by (simp add: shape0_def)
    fix v t1 t2
    assume a: "?P t1"
      and b: "schedule_step posv gesv threads Cui Y ?n initialA (replicate ?n 0) v t1 = Some t2"
    from a schedule_step_rows[OF _ _ b, of "rows X"] show "?P t2" by simp
  qed
  with assms(2,3) show ?thesis by (simp add: shape0_def)
qed

subsection \<open>The reference Cholesky driver meets the contract for two factors\<close>

lemma posv_ref_2:
  assumes "0 < a0" "0 < a3 - a2 / sqrt a0 * (a2 / sqrt a0)"
  shows "posv_ref 2 [a0, a1, a2, a3] [b0, b1] =
    ([sqrt a0, a1, a2 / sqrt a0, sqrt (a3 - a2 * a2 / a0)],
     [(b0 / sqrt a0 - a2 * (b1 - a2 * b0 / a0) / ((a3 - a2 * a2 / a0) * sqrt a0)) / sqrt a0,
      (b1 - a2 * b0 / a0) / (a3 - a2 * a2 / a0)],
     0)"
  using assms
  by (simp add: posv_ref_def potrs_def back_subst_def upt2 Let_def not_le)

lemma sum_less_2: "(\<Sum>k<2. f k) = f 0 + (f (Suc 0) :: real)"
  by (simp add: numeral_2_eq_2)

lemma all_less_2: "(\<forall>j<2. P j) \<longleftrightarrow> P 0 \<and> P (Suc 0)"
  by (auto simp: numeral_2_eq_2 less_Suc_eq)

lemma div_twice:
  fixes s :: real
  assumes "s \<noteq> 0" "D \<noteq> 0"
  shows "(p / s - q / (D * s)) / s = (p - q / D) / (s * s)"
  using assms by (simp add: field_simps)

lemma second_row:
  fixes a0 :: real
  assumes "a0 \<noteq> 0"
  shows "a2 * ((b0 - a2 * t) / a0) + a3 * t = a2 * b0 / a0 + (a3 - a2 * a2 / a0) * t"
  using assms by (simp add: field_simps)

lemma spd_2:
  assumes "spd 2 [a0, a1, a2, a3]"
  shows "a1 = a2" "0 < a0" "0 < a0 * a3 - a2 * a2"
proof -
  from assms have both:
    "(\<forall>j<2. \<forall>k<2. [a0, a1, a2, a3] ! (j + k * 2) = [a0, a1, a2, a3] ! (k + j * 2))
     \<and> (\<forall>v. length v = 2 \<and> (\<exists>j<2. v ! j \<noteq> 0) \<longrightarrow>
               0 < (\<Sum>j<2. \<Sum>k<2. v ! j * [a0, a1, a2, a3] ! (j + k * 2) * v ! k))"
    unfolding spd_def .
  from both have sym: "\<forall>j<2. \<forall>k<2. [a0, a1, a2, a3] ! (j + k * 2) = [a0, a1, a2, a3] ! (k + j * 2)"
    by (rule conjunct1)
  from both have pd0: "\<forall>v. length v = 2 \<and> (\<exists>j<2. v ! j \<noteq> 0) \<longrightarrow>
               0 < (\<Sum>j<2. \<Sum>k<2. v ! j * [a0, a1, a2, a3] ! (j + k * 2) * v ! k)"
    by (rule conjunct2)
  have pd: "0 < (\<Sum>j<2. \<Sum>k<2. v ! j * [a0, a1, a2, a3] ! (j + k * 2) * v ! k)"
    if "length v = 2" "\<exists>j<2. v ! j \<noteq> 0" for v
    using pd0[rule_format, of v] that by (simp only: simp_thms)
  from sym[rule_format, of "Suc 0" 0] show s: "a1 = a2" by simp
  have "\<exists>j<2. [1, 0 :: real] ! j \<noteq> 0" by (intro exI[of _ 0]) simp
  from pd[of "[1, 0]", OF _ this] show p: "0 < a0" by (simp add: sum_less_2)
  have "\<exists>j<2. [- a2, a0] ! j \<noteq> 0" using p by (intro exI[of _ "Suc 0"]) simp
  from pd[of "[- a2, a0]", OF _ this] s
  have "0 < a0 * (a0 * a3 - a2 * a2)" by (simp add: sum_less_2 algebra_simps)
  with p show "0 < a0 * a3 - a2 * a2" by (simp add: zero_less_mult_iff)
qed

lemma posv_ref_contract_2: "posv_contract posv_ref 2"
  unfolding posv_contract_def
proof (intro allI impI)
  fix a b :: "real list"
  assume h: "length a = 2 * 2 \<and> length b = 2 \<and> spd 2 a"
  then obtain a0 a1 a2 a3 where a: "a = [a0, a1, a2, a3]"
    by (auto simp: eval_nat_numeral length_Suc_conv)
  from h obtain b0 b1 where b: "b = [b0, b1]"
    by (auto simp: eval_nat_numeral length_Suc_conv)
  from h a have "spd 2 [a0, a1, a2, a3]" by simp
  note s = spd_2[OF this]
  from s(2) have sq: "sqrt a0 * sqrt a0 = a0" by simp
  have d: "a3 - a2 / sqrt a0 * (a2 / sqrt a0) = (a0 * a3 - a2 * a2) / a0"
    using s(2) sq by (simp add: field_simps)
  with s(2,3) have pos: "0 < a3 - a2 / sqrt a0 * (a2 / sqrt a0)" by simp
  have d2: "a3 - a2 * a2 / a0 \<noteq> 0"
    using s(2,3) by (simp add: field_simps)
  let ?x1 = "(b1 - a2 * b0 / a0) / (a3 - a2 * a2 / a0)"
  let ?x0 = "(b0 / sqrt a0 - a2 * (b1 - a2 * b0 / a0) / ((a3 - a2 * a2 / a0) * sqrt a0)) / sqrt a0"
  have x0: "?x0 = (b0 - a2 * ?x1) / a0"
  proof -
    from s(2) have "sqrt a0 \<noteq> 0" by simp
    from div_twice[OF this d2, of "b0" "a2 * (b1 - a2 * b0 / a0)"]
    have "?x0 = (b0 - a2 * ?x1) / (sqrt a0 * sqrt a0)"
      by simp
    then show ?thesis by (simp only: sq)
  qed
  have e0: "a0 * ?x0 + a2 * ?x1 = b0"
    unfolding x0 using s(2) by simp
  have "a2 * ?x0 + a3 * ?x1 = a2 * b0 / a0 + (a3 - a2 * a2 / a0) * ?x1"
    unfolding x0 using s(2) by (intro second_row) simp
  also have "(a3 - a2 * a2 / a0) * ?x1 = b1 - a2 * b0 / a0"
    using d2 by simp
  finally have e1: "a2 * ?x0 + a3 * ?x1 = b1" by simp
  show "\<exists>a' x. posv_ref 2 a b = (a', x, 0) \<and> length x = 2
           \<and> (\<forall>j<2. (\<Sum>k<2. a ! (j + k * 2) * x ! k) = b ! j)"
    unfolding a b posv_ref_2[OF s(2) pos]
    using e0 e1 s(1) by (simp add: all_less_2 sum_less_2)
qed


lemma wf_Cs: "wf_input Cs Xs Ys" "wf_values Cs (shape0 Xs)"
  by (simp_all add: wf_input_def wf_csr_def wf_values_def rect_def shape0_def user_entries_def
        inputs upt1 upt2 upt3)

subsection \<open>The BLAS routines and the loss accumulation\<close>

lemma sum_list_upt_lessThan: "(\<Sum>k\<leftarrow>[0..<n]. f k) = (\<Sum>k<n. (f k :: real))"
  by (simp add: interv_sum_list_conv_sum_set_nat atLeast0LessThan)

lemma dot_vdot:
  assumes "n \<le> length x" "n \<le> length y"
  shows "dot n x y = vdot n x y"
proof -
  let ?zs = "map2 (\<lambda>a b. a * b) (take n x) (take n y)"
  from assms have l: "length ?zs = n" by simp
  have "sum_list ?zs = (\<Sum>k<length ?zs. ?zs ! k)"
    by (simp add: sum_list_sum_nth atLeast0LessThan)
  also have "\<dots> = (\<Sum>k<n. x ! k * y ! k)"
    unfolding l using assms by (intro sum.cong refl) simp
  finally show ?thesis by (simp add: dot_def vdot_def)
qed

lemma symv_entries:
  assumes "\<forall>j<n. \<forall>k<n. a ! (j * n + k) = G j k" "\<And>j k. G j k = G k j"
  shows "length (symv (CHR ''U'') n alpha a n x 0 y) = n"
    "j < n \<Longrightarrow> symv (CHR ''U'') n alpha a n x 0 y ! j = alpha * (\<Sum>k<n. G j k * x ! k)"
proof -
  show "length (symv (CHR ''U'') n alpha a n x 0 y) = n" by (simp add: symv_def)
  assume j: "j < n"
  have "a ! (min j k + max j k * n) = G j k" if "k < n" for k
  proof (cases "j \<le> k")
    case True
    with assms(1) j that have "a ! (k * n + j) = G k j" by simp
    with True assms(2)[of j k] show ?thesis by (simp add: min_def max_def add.commute)
  next
    case False
    with assms(1) j that have "a ! (j * n + k) = G j k" by simp
    with False show ?thesis by (simp add: min_def max_def add.commute)
  qed
  then have "(\<Sum>k<n. a ! (min j k + max j k * n) * x ! k) = (\<Sum>k<n. G j k * x ! k)"
    by (intro sum.cong refl) simp
  with j show "symv (CHR ''U'') n alpha a n x 0 y ! j = alpha * (\<Sum>k<n. G j k * x ! k)"
    by (simp add: symv_def sum_list_upt_lessThan)
qed

lemma gram_sym: "gram Y j k = gram Y k j"
  unfolding gram_def by (intro arg_cong[where f = sum_list] map_cong refl) simp

lemma flat_gram:
  "length (flat (np_dot (np_transpose Y) Y)) = shape1 Y * shape1 Y"
  "j < shape1 Y \<Longrightarrow> k < shape1 Y \<Longrightarrow>
     flat (np_dot (np_transpose Y) Y) ! (j * shape1 Y + k) = gram Y j k"
proof -
  have r: "rows (np_dot (np_transpose Y) Y)
        = map (\<lambda>j. map (\<lambda>k. gram Y j k) [0..<shape1 Y]) [0..<shape1 Y]"
    by (simp add: np_dot_def np_transpose_def gram_def sum_list_zip_map)
  show "length (flat (np_dot (np_transpose Y) Y)) = shape1 Y * shape1 Y"
    by (simp add: flat_def r length_concat_grid)
  show "flat (np_dot (np_transpose Y) Y) ! (j * shape1 Y + k) = gram Y j k"
    if "j < shape1 Y" "k < shape1 Y"
    using that by (simp add: flat_def r nth_concat_grid)
qed

lemma loss_fold:
  assumes "\<forall>(i, c) \<in> set es. length (Yr ! i) = n" "length (r_buf s) = n" "length x = n"
  shows "length (r_buf (foldl (\<lambda>s (i, c). loss_step n x (Yr ! i) c s) s es)) = n
    \<and> (\<forall>j<n. r_buf (foldl (\<lambda>s (i, c). loss_step n x (Yr ! i) c s) s es) ! j
          = r_buf s ! j + (\<Sum>(i, c)\<leftarrow>es. ((c - 1) * vdot n (Yr ! i) x - 2 * c) * Yr ! i ! j))
    \<and> total_confidence (foldl (\<lambda>s (i, c). loss_step n x (Yr ! i) c s) s es)
          = total_confidence s + (\<Sum>(i, c)\<leftarrow>es. c)
    \<and> loss (foldl (\<lambda>s (i, c). loss_step n x (Yr ! i) c s) s es) = loss s + (\<Sum>(i, c)\<leftarrow>es. c)
    \<and> user_norm (foldl (\<lambda>s (i, c). loss_step n x (Yr ! i) c s) s es) = user_norm s
    \<and> item_norm (foldl (\<lambda>s (i, c). loss_step n x (Yr ! i) c s) s es) = item_norm s
    \<and> mX (foldl (\<lambda>s (i, c). loss_step n x (Yr ! i) c s) s es) = mX s
    \<and> mY (foldl (\<lambda>s (i, c). loss_step n x (Yr ! i) c s) s es) = mY s"
  using assms(1,2)
proof (induction es arbitrary: s)
  case Nil
  then show ?case by simp
next
  case (Cons e es)
  obtain i c where e: "e = (i, c)" by (cases e)
  let ?s1 = "loss_step n x (Yr ! i) c s"
  from Cons.prems e have y: "length (Yr ! i) = n" by simp
  have l1: "length (r_buf ?s1) = n"
    using y Cons.prems(2) by (simp add: loss_step_def Let_def length_axpy)
  have n1: "r_buf ?s1 ! j = r_buf s ! j + ((c - 1) * vdot n (Yr ! i) x - 2 * c) * Yr ! i ! j"
    if "j < n" for j
    using that y Cons.prems(2) assms(3) by (simp add: loss_step_def Let_def nth_axpy dot_vdot)
  have f1: "total_confidence ?s1 = total_confidence s + c" "loss ?s1 = loss s + c"
    "user_norm ?s1 = user_norm s" "item_norm ?s1 = item_norm s" "mX ?s1 = mX s" "mY ?s1 = mY s"
    by (simp_all add: loss_step_def Let_def)
  from Cons.prems(1) have rest: "\<forall>(i, c) \<in> set es. length (Yr ! i) = n" by simp
  from Cons.IH[OF rest l1] n1 f1 e show ?case by (simp add: algebra_simps)
qed

lemma wf_loss_user:
  assumes "wf_csr Cui users (shape0 Y)" "rect Y" "u < users"
    "mX s = X \<and> mY s = Y" "length (rows X ! u) = shape1 Y"
  shows "\<exists>s'. calculate_loss_user Cui (shape1 Y) (np_dot (np_transpose Y) Y) u s = Inr s'
     \<and> (mX s' = X \<and> mY s' = Y)
     \<and> loss s' = loss s + ((\<Sum>(i, c)\<leftarrow>user_entries Cui u. c)
                            + user_term Y (user_entries Cui u) (shape1 Y) (rows X ! u))
     \<and> total_confidence s' = total_confidence s + (\<Sum>(i, c)\<leftarrow>user_entries Cui u. c)
     \<and> user_norm s' = user_norm s + vdot (shape1 Y) (rows X ! u) (rows X ! u)
     \<and> item_norm s' = item_norm s + 0"
proof -
  let ?n = "shape1 Y" and ?x = "rows X ! u" and ?es = "user_entries Cui u"
  let ?a = "flat (np_dot (np_transpose Y) Y)"
  let ?s1 = "s\<lparr>r_buf := symv (CHR ''U'') ?n 1 ?a ?n ?x 0 (r_buf s)\<rparr>"
  let ?s2 = "foldl (\<lambda>s (i, c). loss_step ?n ?x (rows Y ! i) c s) ?s1 ?es"
  have a: "\<forall>j<?n. \<forall>k<?n. ?a ! (j * ?n + k) = gram Y j k"
    by (simp add: flat_gram)
  note sv = symv_entries[OF a gram_sym, where alpha = 1 and x = ?x and y = "r_buf s"]
  from wf_rows[OF assms(1-3)] have len: "\<forall>(i, c) \<in> set ?es. length (rows Y ! i) = ?n"
    by auto
  have l1: "length (r_buf ?s1) = ?n" using sv(1) by simp
  note f = loss_fold[OF len l1 assms(5)]
  have body: "calculate_loss_user Cui ?n (np_dot (np_transpose Y) Y) u s
      = Inr (?s2\<lparr>loss := loss ?s2 + dot ?n (r_buf ?s2) ?x,
                  user_norm := user_norm ?s2 + dot ?n ?x ?x\<rparr>)"
    using assms(4)
    by (simp add: calculate_loss_user_def mem_read_def flat_gram wf_user_range[OF assms(1,3)]
          wf_user_loop[OF assms(1-3)] Let_def)
  have r: "r_buf ?s2 ! j = r_spec Y ?es ?n ?x j" if "j < ?n" for j
    using f sv(2)[OF that] that by (simp add: r_spec_def)
  have "dot ?n (r_buf ?s2) ?x = vdot ?n (r_buf ?s2) ?x"
    using f assms(5) by (intro dot_vdot) simp_all
  also have "\<dots> = user_term Y ?es ?n ?x"
    unfolding vdot_def user_term_def by (intro sum.cong refl) (simp add: r)
  finally have d: "dot ?n (r_buf ?s2) ?x = user_term Y ?es ?n ?x" .
  have dx: "dot ?n ?x ?x = vdot ?n ?x ?x"
    using assms(5) by (intro dot_vdot) simp_all
  show ?thesis
    unfolding body using f d dx assms(4) by simp
qed

lemma wf_loss_item:
  assumes "rect Y" "i < shape0 Y" "mX s = X \<and> mY s = Y"
  shows "\<exists>s'. calculate_loss_item (shape1 Y) i s = Inr s'
     \<and> (mX s' = X \<and> mY s' = Y)
     \<and> loss s' = loss s + 0
     \<and> total_confidence s' = total_confidence s + 0
     \<and> user_norm s' = user_norm s + 0
     \<and> item_norm s' = item_norm s + vdot (shape1 Y) (rows Y ! i) (rows Y ! i)"
proof -
  from assms(1,2) have "length (rows Y ! i) = shape1 Y"
    by (simp add: rect_def shape0_def list_all_length)
  then have "dot (shape1 Y) (rows Y ! i) (rows Y ! i) = vdot (shape1 Y) (rows Y ! i) (rows Y ! i)"
    by (intro dot_vdot) simp_all
  with assms(3) wf_row_read[OF assms(1,2)] show ?thesis
    by (simp add: calculate_loss_item_def)
qed

lemma loss_loop:
  fixes body :: "nat \<Rightarrow> loss_state \<Rightarrow> error + loss_state" and s :: loss_state
  assumes step: "\<And>u s. u \<in> set us \<Longrightarrow> mX s = X \<and> mY s = Y \<Longrightarrow>
      \<exists>s'. body u s = Inr s' \<and> (mX s' = X \<and> mY s' = Y)
        \<and> loss s' = loss s + lt u
        \<and> total_confidence s' = total_confidence s + tc u
        \<and> user_norm s' = user_norm s + un u
        \<and> item_norm s' = item_norm s + it u"
    and "mX s = X \<and> mY s = Y"
  shows "\<exists>s'. users_loop body us s = (s', None) \<and> (mX s' = X \<and> mY s' = Y)
        \<and> loss s' = loss s + (\<Sum>u\<leftarrow>us. lt u)
        \<and> total_confidence s' = total_confidence s + (\<Sum>u\<leftarrow>us. tc u)
        \<and> user_norm s' = user_norm s + (\<Sum>u\<leftarrow>us. un u)
        \<and> item_norm s' = item_norm s + (\<Sum>u\<leftarrow>us. it u)"
  using assms
proof (induction us arbitrary: s)
  case Nil
  then show ?case by simp
next
  case (Cons v vs)
  from Cons.prems(1)[of v s] Cons.prems(2) obtain s1 where
    s1: "body v s = Inr s1" "mX s1 = X \<and> mY s1 = Y" "loss s1 = loss s + lt v"
      "total_confidence s1 = total_confidence s + tc v" "user_norm s1 = user_norm s + un v"
      "item_norm s1 = item_norm s + it v"
    by auto
  have "\<exists>s'. users_loop body vs s1 = (s', None) \<and> (mX s' = X \<and> mY s' = Y)
        \<and> loss s' = loss s1 + (\<Sum>u\<leftarrow>vs. lt u)
        \<and> total_confidence s' = total_confidence s1 + (\<Sum>u\<leftarrow>vs. tc u)
        \<and> user_norm s' = user_norm s1 + (\<Sum>u\<leftarrow>vs. un u)
        \<and> item_norm s' = item_norm s1 + (\<Sum>u\<leftarrow>vs. it u)"
  proof (rule Cons.IH[OF _ s1(2)])
    fix u and t :: loss_state assume "u \<in> set vs" "mX t = X \<and> mY t = Y"
    then show "\<exists>s'. body u t = Inr s' \<and> (mX s' = X \<and> mY s' = Y)
        \<and> loss s' = loss t + lt u
        \<and> total_confidence s' = total_confidence t + tc u
        \<and> user_norm s' = user_norm t + un u
        \<and> item_norm s' = item_norm t + it u"
      using Cons.prems(1)[of u t] by simp
  qed
  with s1 show ?case by (auto simp: algebra_simps)
qed

lemma stored_confidence_total:
  assumes "wf_csr Cui users items"
  shows "(\<Sum>u<users. \<Sum>(i, c)\<leftarrow>user_entries Cui u. c) = sum_list (data Cui)"
proof -
  let ?d = "\<lambda>k. data Cui ! k" and ?p = "\<lambda>u. nat (indptr Cui ! u)"
  have row: "(\<Sum>(i, c)\<leftarrow>user_entries Cui u. c) = sum ?d {?p u..<?p (Suc u)}" for u
    by (simp add: user_entries_def comp_def interv_sum_list_conv_sum_set_nat)
  have "m \<le> users \<Longrightarrow> (\<Sum>u<m. sum ?d {?p u..<?p (Suc u)}) = sum ?d {0..<?p m}" for m
  proof (induction m)
    case 0
    from assms show ?case by (simp add: wf_csr_def)
  next
    case (Suc m)
    then have m: "m < users" by simp
    from wf_csr_indptr[OF assms m] have "?p m \<le> ?p (Suc m)" by simp
    then have "sum ?d {0..<?p m} + sum ?d {?p m..<?p (Suc m)} = sum ?d {0..<?p (Suc m)}"
      by (intro sum.atLeastLessThan_concat) simp_all
    with Suc show ?case by simp
  qed
  then have "(\<Sum>u<users. sum ?d {?p u..<?p (Suc u)}) = sum ?d {0..<?p users}" by simp
  moreover have "indptr Cui ! users = int (length (data Cui))"
  proof -
    from assms have l: "length (indptr Cui) = users + 1"
      and e: "last (indptr Cui) = int (length (data Cui))"
      by (simp_all add: wf_csr_def)
    from l have "indptr Cui \<noteq> []" by auto
    from last_conv_nth[OF this] l e show ?thesis by simp
  qed
  moreover have "sum_list (data Cui) = sum ?d {0..<length (data Cui)}"
    by (rule sum_list_sum_nth)
  ultimately show ?thesis by (simp add: row)
qed

lemma sum_less_3: "(\<Sum>k<3. f k) = f 0 + f (Suc 0) + (f 2 :: real)"
  by (simp add: eval_nat_numeral)

lemmas spec_ev = vdot_def r_spec_def user_term_def norms_def loss_denominator_def loss_claimed_def
  loss_value_def gram_def user_entries_def shape0_def sum_less_2 sum_less_3

subsection \<open>The matrix-free products of the conjugate-gradient solver\<close>

lemma length_vec [simp]: "length (vec n f) = n"
  by (simp add: vec_def)

lemma nth_vec [simp]: "j < n \<Longrightarrow> vec n f ! j = f j"
  by (simp add: vec_def)

lemma vec_eqI: "length xs = n \<Longrightarrow> (\<And>j. j < n \<Longrightarrow> xs ! j = f j) \<Longrightarrow> xs = vec n f"
  by (intro nth_equalityI) simp_all

lemma vec_cong: "(\<And>j. j < n \<Longrightarrow> f j = g j) \<Longrightarrow> vec n f = vec n g"
  by (simp add: vec_def)

lemma axpy_vec:
  assumes "length dx = n" "length dy = n"
  shows "axpy n da dx dy = vec n (\<lambda>j. dy ! j + da * dx ! j)"
  using assms by (intro vec_eqI) (simp_all add: length_axpy nth_axpy)

lemma scal_vec:
  assumes "length x = n"
  shows "scal n a x = vec n (\<lambda>j. a * x ! j)"
  using assms by (intro vec_eqI) (simp_all add: scal_def)

lemma sum_sum_list_swap:
  fixes f :: "'a \<Rightarrow> nat \<Rightarrow> real"
  shows "(\<Sum>k<n. \<Sum>e\<leftarrow>es. f e k) = (\<Sum>e\<leftarrow>es. \<Sum>k<n. f e k)"
  by (induction es) (simp_all add: sum.distrib)

lemma A_spec_mat_vec:
  "(\<Sum>k<n. A_spec Y c es j k * v ! k)
   = (\<Sum>k<n. (gram Y j k + (if j = k then c else 0)) * v ! k)
     + (\<Sum>(i, w)\<leftarrow>es. (w - 1) * vdot n (rows Y ! i) v * rows Y ! i ! j)"
proof -
  have s: "(\<Sum>(i, w)\<leftarrow>es. (w - 1) * rows Y ! i ! j * rows Y ! i ! k) * v ! k
      = (\<Sum>e\<leftarrow>es. (snd e - 1) * rows Y ! fst e ! j * (rows Y ! fst e ! k * v ! k))" for k
  proof -
    have "(\<Sum>e\<leftarrow>es. (snd e - 1) * rows Y ! fst e ! j * (rows Y ! fst e ! k * v ! k))
        = (\<Sum>e\<leftarrow>es. ((snd e - 1) * rows Y ! fst e ! j * rows Y ! fst e ! k) * v ! k)"
      by (simp add: mult.assoc)
    also have "\<dots> = (\<Sum>e\<leftarrow>es. (snd e - 1) * rows Y ! fst e ! j * rows Y ! fst e ! k) * v ! k"
      by (rule sum_list_mult_const)
    finally show ?thesis by (simp add: case_prod_unfold)
  qed
  have "(\<Sum>k<n. A_spec Y c es j k * v ! k)
      = (\<Sum>k<n. (gram Y j k + (if j = k then c else 0)) * v ! k
                + (\<Sum>e\<leftarrow>es. (snd e - 1) * rows Y ! fst e ! j * (rows Y ! fst e ! k * v ! k)))"
    unfolding A_spec_def s[symmetric]
    by (intro sum.cong refl) (simp add: distrib_right)
  also have "\<dots> = (\<Sum>k<n. (gram Y j k + (if j = k then c else 0)) * v ! k)
      + (\<Sum>k<n. \<Sum>e\<leftarrow>es. (snd e - 1) * rows Y ! fst e ! j * (rows Y ! fst e ! k * v ! k))"
    by (simp add: sum.distrib)
  also have "(\<Sum>k<n. \<Sum>e\<leftarrow>es. (snd e - 1) * rows Y ! fst e ! j * (rows Y ! fst e ! k * v ! k))
      = (\<Sum>e\<leftarrow>es. \<Sum>k<n. (snd e - 1) * rows Y ! fst e ! j * (rows Y ! fst e ! k * v ! k))"
    by (rule sum_sum_list_swap)
  also have "\<dots> = (\<Sum>(i, w)\<leftarrow>es. (w - 1) * vdot n (rows Y ! i) v * rows Y ! i ! j)"
    by (intro arg_cong[where f = sum_list] map_cong refl)
       (simp add: case_prod_unfold vdot_def sum_distrib_left algebra_simps)
  finally show ?thesis .
qed

lemma axpy_fold:
  assumes "\<forall>(i, c) \<in> set es. length (Yr ! i) = n" "length s = n"
  shows "length (foldl (\<lambda>s (i, c). axpy n (t (Yr ! i) c) (Yr ! i) s) s es) = n
    \<and> (\<forall>j<n. foldl (\<lambda>s (i, c). axpy n (t (Yr ! i) c) (Yr ! i) s) s es ! j
          = s ! j + (\<Sum>(i, c)\<leftarrow>es. t (Yr ! i) c * Yr ! i ! j))"
  using assms
proof (induction es arbitrary: s)
  case Nil
  then show ?case by simp
next
  case (Cons e es)
  obtain i c where e: "e = (i, c)" by (cases e)
  let ?s1 = "axpy n (t (Yr ! i) c) (Yr ! i) s"
  from Cons.prems e have y: "length (Yr ! i) = n" by simp
  with Cons.prems(2) have l1: "length ?s1 = n" by (simp add: length_axpy)
  have n1: "?s1 ! j = s ! j + t (Yr ! i) c * Yr ! i ! j" if "j < n" for j
    using that y Cons.prems(2) by (simp add: nth_axpy)
  from Cons.prems(1) have rest: "\<forall>(i, c) \<in> set es. length (Yr ! i) = n" by simp
  from Cons.IH[OF rest l1] n1 e show ?case by (simp add: algebra_simps)
qed

lemma reg_gram_sym:
  "gram Y j k + (if j = k then c else 0) = gram Y k j + (if k = j then c else (0::real))"
  using gram_sym[of Y j k] by simp

lemma wf_dot_entries:
  assumes "\<forall>(i, c) \<in> set es. length (Yr ! i) = n" "length v = n"
  shows "(\<Sum>(i, c)\<leftarrow>es. t c (dot n (Yr ! i) v) * Yr ! i ! j)
       = (\<Sum>(i, c)\<leftarrow>es. t c (vdot n (Yr ! i) v) * Yr ! i ! j)"
proof (intro arg_cong[where f = sum_list] map_cong refl)
  fix e assume "e \<in> set es"
  with assms(1) have "length (Yr ! fst e) = n" by auto
  with assms(2) have "dot n (Yr ! fst e) v = vdot n (Yr ! fst e) v"
    by (intro dot_vdot) simp_all
  then show "(case e of (i, c) \<Rightarrow> t c (dot n (Yr ! i) v) * Yr ! i ! j)
           = (case e of (i, c) \<Rightarrow> t c (vdot n (Yr ! i) v) * Yr ! i ! j)"
    by (simp add: case_prod_unfold)
qed

lemma wf_cg_Ap:
  assumes "wf_csr Cui users (shape0 Y)" "rect Y" "u < users"
    "\<forall>j<shape1 Y. \<forall>k<shape1 Y.
       a ! (j * shape1 Y + k) = gram Y j k + (if j = k then regularization else 0)"
    "length p = shape1 Y"
  shows "row_loop (Ap_step (shape1 Y) p) Cui Y (shape1 Y) (user_range Cui u)
           (symv (CHR ''U'') (shape1 Y) 1 a (shape1 Y) p 0 (malloc (shape1 Y)))
         = Inr (mat_vec (shape1 Y) (A_spec Y regularization (user_entries Cui u)) p)"
proof -
  let ?n = "shape1 Y" and ?es = "user_entries Cui u"
  let ?s0 = "symv (CHR ''U'') ?n 1 a ?n p 0 (malloc ?n)"
  let ?t = "\<lambda>yi c. (c - 1) * dot ?n yi p"
  note sv = symv_entries[OF assms(4) reg_gram_sym, where alpha = 1 and x = p and y = "malloc ?n"]
  from wf_rows[OF assms(1-3)] have len: "\<forall>(i, c) \<in> set ?es. length (rows Y ! i) = ?n"
    by auto
  have step: "Ap_step ?n p = (\<lambda>yi c s. axpy ?n (?t yi c) yi s)"
    by (simp add: Ap_step_def Let_def fun_eq_iff)
  note f = axpy_fold[OF len sv(1), where t = ?t]
  have "foldl (\<lambda>s (i, c). axpy ?n (?t (rows Y ! i) c) (rows Y ! i) s) ?s0 ?es
        = mat_vec ?n (A_spec Y regularization ?es) p"
    unfolding mat_vec_def
  proof (rule vec_eqI)
    show "length (foldl (\<lambda>s (i, c). axpy ?n (?t (rows Y ! i) c) (rows Y ! i) s) ?s0 ?es) = ?n"
      using f by simp
    fix j assume j: "j < ?n"
    with f have "foldl (\<lambda>s (i, c). axpy ?n (?t (rows Y ! i) c) (rows Y ! i) s) ?s0 ?es ! j
        = ?s0 ! j + (\<Sum>(i, c)\<leftarrow>?es. (c - 1) * dot ?n (rows Y ! i) p * rows Y ! i ! j)"
      by simp
    also have "(\<Sum>(i, c)\<leftarrow>?es. (c - 1) * dot ?n (rows Y ! i) p * rows Y ! i ! j)
        = (\<Sum>(i, c)\<leftarrow>?es. (c - 1) * vdot ?n (rows Y ! i) p * rows Y ! i ! j)"
      by (rule wf_dot_entries[OF len assms(5), where t = "\<lambda>c d. (c - 1) * d"])
    finally show "foldl (\<lambda>s (i, c). axpy ?n (?t (rows Y ! i) c) (rows Y ! i) s) ?s0 ?es ! j
        = (\<Sum>k<?n. A_spec Y regularization ?es j k * p ! k)"
      using sv(2)[OF j] by (simp add: A_spec_mat_vec)
  qed
  then show ?thesis
    by (simp add: wf_user_loop[OF assms(1-3)] step)
qed

lemma wf_cg_residual:
  assumes "wf_csr Cui users (shape0 Y)" "rect Y" "u < users"
    "\<forall>j<shape1 Y. \<forall>k<shape1 Y.
       a ! (j * shape1 Y + k) = gram Y j k + (if j = k then regularization else 0)"
    "length x = shape1 Y"
  shows "row_loop (residual_step (shape1 Y) x) Cui Y (shape1 Y) (user_range Cui u)
           (symv (CHR ''U'') (shape1 Y) (- 1) a (shape1 Y) x 0 (malloc (shape1 Y)))
         = Inr (vec (shape1 Y) (\<lambda>j. b_spec Y (user_entries Cui u) j
                  - mat_vec (shape1 Y) (A_spec Y regularization (user_entries Cui u)) x ! j))"
proof -
  let ?n = "shape1 Y" and ?es = "user_entries Cui u"
  let ?s0 = "symv (CHR ''U'') ?n (- 1) a ?n x 0 (malloc ?n)"
  let ?t = "\<lambda>yi c. c - (c - 1) * dot ?n yi x"
  note sv = symv_entries[OF assms(4) reg_gram_sym, where alpha = "- 1" and x = x and y = "malloc ?n"]
  from wf_rows[OF assms(1-3)] have len: "\<forall>(i, c) \<in> set ?es. length (rows Y ! i) = ?n"
    by auto
  have step: "residual_step ?n x = (\<lambda>yi c s. axpy ?n (?t yi c) yi s)"
    by (simp add: residual_step_def Let_def fun_eq_iff)
  note f = axpy_fold[OF len sv(1), where t = ?t]
  have "foldl (\<lambda>s (i, c). axpy ?n (?t (rows Y ! i) c) (rows Y ! i) s) ?s0 ?es
        = vec ?n (\<lambda>j. b_spec Y ?es j - mat_vec ?n (A_spec Y regularization ?es) x ! j)"
  proof (rule vec_eqI)
    show "length (foldl (\<lambda>s (i, c). axpy ?n (?t (rows Y ! i) c) (rows Y ! i) s) ?s0 ?es) = ?n"
      using f by simp
    fix j assume j: "j < ?n"
    with f have "foldl (\<lambda>s (i, c). axpy ?n (?t (rows Y ! i) c) (rows Y ! i) s) ?s0 ?es ! j
        = ?s0 ! j + (\<Sum>(i, c)\<leftarrow>?es. (c - (c - 1) * dot ?n (rows Y ! i) x) * rows Y ! i ! j)"
      by simp
    also have "(\<Sum>(i, c)\<leftarrow>?es. (c - (c - 1) * dot ?n (rows Y ! i) x) * rows Y ! i ! j)
        = (\<Sum>(i, c)\<leftarrow>?es. (c - (c - 1) * vdot ?n (rows Y ! i) x) * rows Y ! i ! j)"
      by (rule wf_dot_entries[OF len assms(5), where t = "\<lambda>c d. c - (c - 1) * d"])
    also have "\<dots> = (\<Sum>(i, c)\<leftarrow>?es. c * rows Y ! i ! j)
                    - (\<Sum>(i, c)\<leftarrow>?es. (c - 1) * vdot ?n (rows Y ! i) x * rows Y ! i ! j)"
      by (simp add: sum_list_subtractf[symmetric] case_prod_unfold left_diff_distrib)
    finally show "foldl (\<lambda>s (i, c). axpy ?n (?t (rows Y ! i) c) (rows Y ! i) s) ?s0 ?es ! j
        = b_spec Y ?es j - mat_vec ?n (A_spec Y regularization ?es) x ! j"
      using sv(2)[OF j] j by (simp add: mat_vec_def A_spec_mat_vec b_spec_def)
  qed
  then show ?thesis
    by (simp add: wf_user_loop[OF assms(1-3)] step)
qed

lemma length_malloc: "length (malloc n) = n"
  by (simp add: malloc_def)

lemma wf_cg_iteration:
  assumes "wf_csr Cui users (shape0 Y)" "rect Y" "u < users"
    "\<forall>j<shape1 Y. \<forall>k<shape1 Y.
       a ! (j * shape1 Y + k) = gram Y j k + (if j = k then regularization else 0)"
    "length (cg_x s) = shape1 Y" "length (cg_p s) = shape1 Y" "length (cg_r s) = shape1 Y"
  shows "cg_iteration Cui Y (shape1 Y) a (user_range Cui u) s =
     (let n = shape1 Y;
          Ap = mat_vec n (A_spec Y regularization (user_entries Cui u)) (cg_p s)
      in if vdot n (cg_p s) Ap = 0 \<or> rsold s = 0 then Inr DividedByZero
         else
           (let alpha = rsold s / vdot n (cg_p s) Ap;
                x' = vec n (\<lambda>j. cg_x s ! j + alpha * cg_p s ! j);
                r' = vec n (\<lambda>j. cg_r s ! j - alpha * Ap ! j);
                rsnew = vdot n r' r';
                p' = vec n (\<lambda>j. r' ! j + rsnew / rsold s * cg_p s ! j)
            in Inr (Finite \<lparr>cg_x = x', cg_p = p', cg_r = r', rsold = rsnew\<rparr>)))"
proof -
  let ?n = "shape1 Y"
  let ?Ap = "mat_vec ?n (A_spec Y regularization (user_entries Cui u)) (cg_p s)"
  have lA: "length ?Ap = ?n" by (simp add: mat_vec_def)
  have d: "dot ?n (cg_p s) ?Ap = vdot ?n (cg_p s) ?Ap"
    using assms(6) lA by (intro dot_vdot) simp_all
  have x: "axpy ?n al (cg_p s) (cg_x s) = vec ?n (\<lambda>j. cg_x s ! j + al * cg_p s ! j)" for al
    by (rule axpy_vec[OF assms(6,5)])
  have r: "axpy ?n (- al) ?Ap (cg_r s) = vec ?n (\<lambda>j. cg_r s ! j - al * ?Ap ! j)" for al
    using axpy_vec[OF lA assms(7), of "- al"] by simp
  have dr: "dot ?n (vec ?n f) (vec ?n f) = vdot ?n (vec ?n f) (vec ?n f)" for f
    by (intro dot_vdot) simp_all
  have p: "axpy ?n 1 (vec ?n f) (scal ?n t (cg_p s)) = vec ?n (\<lambda>j. vec ?n f ! j + t * cg_p s ! j)"
    for f t
  proof -
    have "axpy ?n 1 (vec ?n f) (scal ?n t (cg_p s))
        = vec ?n (\<lambda>j. scal ?n t (cg_p s) ! j + 1 * vec ?n f ! j)"
      using assms(6) by (intro axpy_vec) (simp_all add: scal_vec)
    also have "\<dots> = vec ?n (\<lambda>j. vec ?n f ! j + t * cg_p s ! j)"
      using assms(6) by (intro vec_cong) (simp add: scal_vec)
    finally show ?thesis .
  qed
  show ?thesis
    unfolding cg_iteration_def wf_cg_Ap[OF assms(1-4,6)]
    by (simp add: Let_def d x r dr p)
qed

text \<open>
  The second divisor of an iteration is not zero before the first.  When a user's loop
  starts, \<open>p = r\<close> and \<open>rsold = r \<cdot> r\<close>; every iteration keeps \<open>rsold = r \<cdot> r\<close>
  and \<open>p = 0\<close> where \<open>rsold = 0\<close>, and then \<open>p \<cdot> Ap = 0\<close>.
\<close>

lemma sum_list_zero: "(\<And>x. x \<in> set xs \<Longrightarrow> f x = (0::real)) \<Longrightarrow> sum_list (map f xs) = 0"
  by (induction xs) simp_all

lemma dot_zero: "dot n (replicate n 0) y = 0"
proof -
  have "sum_list (map (\<lambda>(a, b). a * b) (zip (take n (replicate n 0)) (take n y))) = (0::real)"
    by (rule sum_list_zero) (auto simp: set_zip)
  then show ?thesis by (simp add: dot_def)
qed

lemma vdot_self_zero:
  assumes "vdot n r r = 0" "length r = n"
  shows "r = replicate n 0"
proof (intro nth_equalityI)
  show "length r = length (replicate n (0::real))" using assms(2) by simp
  fix j assume "j < length r"
  with assms(2) have j: "j \<in> {..<n}" by simp
  from assms(1) have "(\<Sum>k<n. r ! k * r ! k) = 0" by (simp add: vdot_def)
  then have "\<forall>k\<in>{..<n}. r ! k * r ! k = 0"
    by (subst (asm) sum_nonneg_eq_0_iff) simp_all
  with j show "r ! j = replicate n 0 ! j" by simp
qed

lemma cg_initial_divisors:
  assumes "length r = n" "dot n r r = 0"
  shows "memcpy (malloc n) r n = replicate n 0"
proof -
  have "dot n r r = vdot n r r" using assms(1) by (intro dot_vdot) simp_all
  with assms show ?thesis by (simp add: memcpy_full length_malloc vdot_self_zero)
qed

lemma wf_cg_divisors:
  assumes "wf_csr Cui users (shape0 Y)" "rect Y" "u < users"
    "\<forall>j<shape1 Y. \<forall>k<shape1 Y.
       a ! (j * shape1 Y + k) = gram Y j k + (if j = k then regularization else 0)"
    "length (cg_x s) = shape1 Y" "length (cg_p s) = shape1 Y" "length (cg_r s) = shape1 Y"
    "rsold s = dot (shape1 Y) (cg_r s) (cg_r s)"
    "rsold s = 0 \<longrightarrow> cg_p s = replicate (shape1 Y) 0"
  shows "rsold s = 0 \<longrightarrow> dot (shape1 Y) (cg_p s) Ap = 0"
    and "cg_iteration Cui Y (shape1 Y) a (user_range Cui u) s = Inr (Finite s') \<longrightarrow>
           length (cg_x s') = shape1 Y \<and> length (cg_p s') = shape1 Y
           \<and> length (cg_r s') = shape1 Y
           \<and> rsold s' = dot (shape1 Y) (cg_r s') (cg_r s')
           \<and> (rsold s' = 0 \<longrightarrow> cg_p s' = replicate (shape1 Y) 0)"
proof -
  let ?n = "shape1 Y"
  show "rsold s = 0 \<longrightarrow> dot ?n (cg_p s) Ap = 0"
    using assms(9) by (auto simp: dot_zero)
  show "cg_iteration Cui Y ?n a (user_range Cui u) s = Inr (Finite s') \<longrightarrow>
           length (cg_x s') = ?n \<and> length (cg_p s') = ?n \<and> length (cg_r s') = ?n
           \<and> rsold s' = dot ?n (cg_r s') (cg_r s')
           \<and> (rsold s' = 0 \<longrightarrow> cg_p s' = replicate ?n 0)"
  proof
    assume st: "cg_iteration Cui Y ?n a (user_range Cui u) s = Inr (Finite s')"
    let ?Ap = "mat_vec ?n (A_spec Y regularization (user_entries Cui u)) (cg_p s)"
    let ?alpha = "rsold s / vdot ?n (cg_p s) ?Ap"
    let ?r = "vec ?n (\<lambda>j. cg_r s ! j - ?alpha * ?Ap ! j)"
    from st wf_cg_iteration[OF assms(1-7)]
    have s': "s' = \<lparr>cg_x = vec ?n (\<lambda>j. cg_x s ! j + ?alpha * cg_p s ! j),
                    cg_p = vec ?n (\<lambda>j. ?r ! j + vdot ?n ?r ?r / rsold s * cg_p s ! j),
                    cg_r = ?r, rsold = vdot ?n ?r ?r\<rparr>"
      by (auto simp: Let_def split: if_splits)
    have d: "dot ?n ?r ?r = vdot ?n ?r ?r" by (intro dot_vdot) simp_all
    have "cg_p s' = replicate ?n 0" if "rsold s' = 0"
    proof -
      from that s' have z: "vdot ?n ?r ?r = 0" by simp
      then have "?r = replicate ?n 0" by (intro vdot_self_zero) simp_all
      then have "\<forall>j<?n. ?r ! j = 0" by (metis nth_replicate)
      with z show ?thesis
        unfolding s' by (intro nth_equalityI) simp_all
    qed
    with s' d show "length (cg_x s') = ?n \<and> length (cg_p s') = ?n \<and> length (cg_r s') = ?n
           \<and> rsold s' = dot ?n (cg_r s') (cg_r s')
           \<and> (rsold s' = 0 \<longrightarrow> cg_p s' = replicate ?n 0)"
      by simp
  qed
qed

lemma wf_cg_loop:
  assumes "wf_csr Cui users (shape0 Y)" "rect Y" "u < users"
    "\<forall>j<shape1 Y. \<forall>k<shape1 Y.
       a ! (j * shape1 Y + k) = gram Y j k + (if j = k then regularization else 0)"
    "length (cg_x s) = shape1 Y" "length (cg_p s) = shape1 Y" "length (cg_r s) = shape1 Y"
  shows "\<exists>s'. cg_loop (cg_iteration Cui Y (shape1 Y) a (user_range Cui u)) its (Finite s) = Inr s'
          \<and> map_computed cg_x s'
            = cg_spec (shape1 Y) (A_spec Y regularization (user_entries Cui u)) (length its)
                (cg_x s, cg_r s, cg_p s, rsold s)"
  using assms(5-7)
proof (induction its arbitrary: s)
  case Nil
  then show ?case by simp
next
  case (Cons it its)
  note it = wf_cg_iteration[OF assms(1-4) Cons.prems]
  let ?n = "shape1 Y"
  let ?Ap = "mat_vec ?n (A_spec Y regularization (user_entries Cui u)) (cg_p s)"
  show ?case
  proof (cases "vdot ?n (cg_p s) ?Ap = 0 \<or> rsold s = 0")
    case True
    then show ?thesis by (simp add: it Let_def cg_loop_divided)
  next
    case False
    let ?alpha = "rsold s / vdot ?n (cg_p s) ?Ap"
    let ?x = "vec ?n (\<lambda>j. cg_x s ! j + ?alpha * cg_p s ! j)"
    let ?r = "vec ?n (\<lambda>j. cg_r s ! j - ?alpha * ?Ap ! j)"
    let ?p = "vec ?n (\<lambda>j. ?r ! j + vdot ?n ?r ?r / rsold s * cg_p s ! j)"
    let ?s1 = "\<lparr>cg_x = ?x, cg_p = ?p, cg_r = ?r, rsold = vdot ?n ?r ?r\<rparr>"
    from False have st: "cg_iteration Cui Y ?n a (user_range Cui u) s = Inr (Finite ?s1)"
      by (simp add: it Let_def)
    have "\<exists>s'. cg_loop (cg_iteration Cui Y ?n a (user_range Cui u)) its (Finite ?s1) = Inr s'
          \<and> map_computed cg_x s'
            = cg_spec ?n (A_spec Y regularization (user_entries Cui u)) (length its)
                (cg_x ?s1, cg_r ?s1, cg_p ?s1, rsold ?s1)"
      by (rule Cons.IH) simp_all
    with False st show ?thesis by (simp add: Let_def)
  qed
qed

lemma wf_cg_user:
  assumes "wf_csr Cui users (shape0 Y)" "rect Y" "u < users"
    "length (flat YtY) = shape1 Y * shape1 Y"
    "\<forall>j<shape1 Y. \<forall>k<shape1 Y.
       flat YtY ! (j * shape1 Y + k) = gram Y j k + (if j = k then regularization else 0)"
    "Z ! u = Finite x" "length x = shape1 Y"
  shows "least_squares_cg_user Cui Y (shape1 Y) YtY cg_steps u Z =
     Inr (Z[u := cg_solve (shape1 Y) (A_spec Y regularization (user_entries Cui u))
                   (b_spec Y (user_entries Cui u)) x (nat cg_steps)])"
proof -
  let ?n = "shape1 Y" and ?es = "user_entries Cui u"
  let ?A = "A_spec Y regularization ?es"
  let ?r = "vec ?n (\<lambda>j. b_spec Y ?es j - mat_vec ?n ?A x ! j)"
  let ?s0 = "\<lparr>cg_x = x, cg_p = ?r, cg_r = ?r, rsold = dot ?n ?r ?r\<rparr>"
  have a: "take (?n * ?n) (flat YtY) = flat YtY" using assms(4) by simp
  have rs: "dot ?n ?r ?r = vdot ?n ?r ?r" by (intro dot_vdot) simp_all
  have its: "length (py_range 0 cg_steps) = nat cg_steps"
    by (simp add: py_range_nat)
  from wf_cg_loop[OF assms(1-3,5), of ?s0 "py_range 0 cg_steps"] assms(7)
  obtain s' where loop:
    "cg_loop (cg_iteration Cui Y ?n (flat YtY) (user_range Cui u)) (py_range 0 cg_steps) (Finite ?s0)
       = Inr s'"
    "map_computed cg_x s' = cg_solve ?n ?A (b_spec Y ?es) x (nat cg_steps)"
    by (auto simp: its rs cg_solve_def Let_def)
  show ?thesis
    using loop
    by (simp add: least_squares_cg_user_def mem_read_def assms(4,6) a wf_user_range[OF assms(1,3)]
          wf_cg_residual[OF assms(1-3,5,7)] Let_def memcpy_full length_malloc)
qed

lemma least_squares_cg_rows:
  assumes "wf_input Cui X Y"
  shows "least_squares_cg Cui X Y regularization cg_steps =
     (map (\<lambda>u. cg_solve (shape1 X) (A_spec Y regularization (user_entries Cui u))
                  (b_spec Y (user_entries Cui u)) (rows X ! u) (nat cg_steps))
        [0..<shape0 X], None)"
proof -
  let ?n = "shape1 X" and ?m = "shape0 X"
  from assms have c: "wf_csr Cui ?m (shape0 Y)" and r: "rect Y" and e: "shape1 Y = ?n"
    and rx: "rect X"
    by (simp_all add: wf_input_def)
  from prologue_entries[OF e, of regularization] obtain M where
    M: "np_add (np_dot (np_transpose Y) Y) (np_scale regularization (np_eye ?n)) = Inr M"
    and l: "length (flat M) = shape1 Y * shape1 Y"
    and en: "\<forall>j<shape1 Y. \<forall>k<shape1 Y.
       flat M ! (j * shape1 Y + k) = gram Y j k + (if j = k then regularization else 0)"
    unfolding e by blast
  let ?res = "\<lambda>u. cg_solve ?n (A_spec Y regularization (user_entries Cui u))
                      (b_spec Y (user_entries Cui u)) (rows X ! u) (nat cg_steps)"
  let ?body = "least_squares_cg_user Cui Y ?n M cg_steps"
  have "users_loop ?body [0..<length (rows X)] (map ?res [0..<0] @ map Finite (drop 0 (rows X)))
        = (map ?res [0..<length (rows X)], None)"
  proof (rule users_loop_map)
    fix u and Z :: "real list computed list"
    assume u: "u < length (rows X)" and z: "Z ! u = Finite (rows X ! u)"
    from u have um: "u < ?m" by (simp add: shape0_def)
    from u rx have lu: "length (rows X ! u) = shape1 Y"
      by (simp add: rect_def list_all_length e)
    from wf_cg_user[OF c r um l en z lu, of cg_steps]
    show "?body u Z = Inr (Z[u := ?res u])" by (simp add: e)
  qed simp
  with M show ?thesis by (simp add: least_squares_cg_def Let_def shape0_def)
qed

lemma mat_vec_zero: "mat_vec n A (replicate n 0) = replicate n 0"
  by (intro nth_equalityI) (simp_all add: mat_vec_def)

lemma cg_solve_zero:
  assumes "0 < steps"
  shows "cg_solve n A (\<lambda>j. 0) (replicate n 0) steps = DividedByZero"
proof -
  obtain k where k: "steps = Suc k" using assms by (cases steps) simp_all
  have r: "vec n (\<lambda>j. - replicate n (0::real) ! j) = replicate n 0"
    by (intro nth_equalityI) simp_all
  have z: "vdot n (replicate n 0) (replicate n 0) = 0"
    by (simp add: vdot_def)
  show ?thesis
    by (simp add: cg_solve_def Let_def mat_vec_zero r z k)
qed

subsection \<open>The first zero divisor\<close>

text \<open>
  On a positive definite system the recurrence meets a zero divisor only after it has
  reached the solution: if \<open>k\<close> iterations give a row and one more divides by zero,
  the row after \<open>k\<close> iterations solves \<open>A x = b\<close> exactly.  So a row of
  \<open>least_squares_cg\<close> is \<open>DividedByZero\<close> on such a system when \<open>cg_steps\<close>
  exceeds the number of iterations the exact recurrence needs.
\<close>

lemma nth_mat_vec: "j < n \<Longrightarrow> mat_vec n A v ! j = (\<Sum>k<n. A j k * v ! k)"
  by (simp add: mat_vec_def)

lemma vdot_sub_right:
  "vdot n p (vec n (\<lambda>j. r ! j - a * q ! j)) = vdot n p r - a * vdot n p q"
  by (simp add: vdot_def algebra_simps sum_subtractf sum_distrib_left)

lemma vdot_add_left:
  "vdot n (vec n (\<lambda>j. s ! j + c * p ! j)) t = vdot n s t + c * vdot n p t"
  by (simp add: vdot_def algebra_simps sum.distrib sum_distrib_left)

lemma mat_vec_add:
  "j < n \<Longrightarrow> mat_vec n A (vec n (\<lambda>j. x ! j + a * p ! j)) ! j
     = mat_vec n A x ! j + a * mat_vec n A p ! j"
  by (simp add: nth_mat_vec algebra_simps sum.distrib sum_distrib_left)

lemma cg_spec_exact:
  assumes pd: "\<And>v. length v = n \<Longrightarrow> vdot n v (mat_vec n A v) = 0 \<Longrightarrow> v = replicate n 0"
  shows "length x = n \<Longrightarrow> length r = n \<Longrightarrow> length p = n
    \<Longrightarrow> \<forall>j<n. r ! j = b j - mat_vec n A x ! j \<Longrightarrow> rs = vdot n r r \<Longrightarrow> vdot n p r = rs
    \<Longrightarrow> cg_spec n A k (x, r, p, rs) = Finite y
    \<Longrightarrow> cg_spec n A (Suc k) (x, r, p, rs) = DividedByZero
    \<Longrightarrow> solves n A b y"
proof (induction k arbitrary: x r p rs)
  case 0
  from "0.prems"(7) have y: "y = x" by simp
  from "0.prems"(8) have "vdot n p (mat_vec n A p) = 0 \<or> rs = 0"
    by (auto simp: Let_def split: if_splits)
  then have "rs = 0"
  proof
    assume "vdot n p (mat_vec n A p) = 0"
    with pd[OF "0.prems"(3)] have "p = replicate n 0" by simp
    then have "vdot n p r = 0" by (simp add: vdot_def)
    with "0.prems"(6) show ?thesis by simp
  qed
  with "0.prems"(5) have "vdot n r r = 0" by simp
  with "0.prems"(2) have "r = replicate n 0" by (intro vdot_self_zero) simp_all
  then have "\<forall>j<n. r ! j = 0" by (metis nth_replicate)
  with "0.prems"(4) have "\<forall>j<n. (\<Sum>k<n. A j k * x ! k) = b j"
    by (simp add: nth_mat_vec)
  with "0.prems"(1) y show ?case by (simp add: solves_def)
next
  case (Suc k)
  let ?Ap = "mat_vec n A p"
  let ?d = "vdot n p ?Ap"
  let ?alpha = "rs / ?d"
  let ?x = "vec n (\<lambda>j. x ! j + ?alpha * p ! j)"
  let ?r = "vec n (\<lambda>j. r ! j - ?alpha * ?Ap ! j)"
  let ?rs = "vdot n ?r ?r"
  let ?p = "vec n (\<lambda>j. ?r ! j + ?rs / rs * p ! j)"
  from Suc.prems(7) have nz: "?d \<noteq> 0" "rs \<noteq> 0"
    by (auto simp: Let_def split: if_splits)
  with Suc.prems(7) have fin: "cg_spec n A k (?x, ?r, ?p, ?rs) = Finite y"
    by (simp add: Let_def)
  from nz Suc.prems(8) have dz: "cg_spec n A (Suc k) (?x, ?r, ?p, ?rs) = DividedByZero"
    by (simp add: Let_def del: cg_spec.simps(2) add: cg_spec.simps(2)[of n A "Suc k" x r p rs])
  have res: "\<forall>j<n. ?r ! j = b j - mat_vec n A ?x ! j"
  proof (intro allI impI)
    fix j assume j: "j < n"
    then have "mat_vec n A ?x ! j = mat_vec n A x ! j + ?alpha * ?Ap ! j"
      by (rule mat_vec_add)
    with j Suc.prems(4) show "?r ! j = b j - mat_vec n A ?x ! j"
      by simp
  qed
  have "vdot n p ?r = vdot n p r - ?alpha * ?d"
    by (rule vdot_sub_right)
  with nz Suc.prems(6) have orth: "vdot n p ?r = 0" by simp
  have "vdot n ?p ?r = ?rs + ?rs / rs * vdot n p ?r"
    by (rule vdot_add_left)
  with orth have pr: "vdot n ?p ?r = ?rs" by simp
  show ?case
    by (rule Suc.IH[OF _ _ _ res refl pr fin dz]) simp_all
qed

lemma cg_solve_exact:
  assumes "wf_input Cui X Y" "wf_values Cui (shape0 X)" "0 < regularization" "u < shape0 X"
    "cg_solve (shape1 X) (A_spec Y regularization (user_entries Cui u))
       (b_spec Y (user_entries Cui u)) (rows X ! u) k = Finite x"
    "cg_solve (shape1 X) (A_spec Y regularization (user_entries Cui u))
       (b_spec Y (user_entries Cui u)) (rows X ! u) (Suc k) = DividedByZero"
  shows "solves (shape1 X) (A_spec Y regularization (user_entries Cui u))
           (b_spec Y (user_entries Cui u)) x"
proof -
  let ?n = "shape1 X" and ?A = "A_spec Y regularization (user_entries Cui u)"
  let ?b = "b_spec Y (user_entries Cui u)" and ?x0 = "rows X ! u"
  let ?r0 = "vec ?n (\<lambda>j. ?b j - mat_vec ?n ?A ?x0 ! j)"
  from assms(1) have c: "wf_csr Cui (shape0 X) (shape0 Y)" and rx: "rect X"
    by (simp_all add: wf_input_def)
  note e = wf_entries[OF c assms(4,2)]
  from rx assms(4) have lx: "length ?x0 = ?n"
    by (simp add: rect_def list_all_length shape0_def)
  have pd: "v = replicate ?n 0" if v: "length v = ?n" "vdot ?n v (mat_vec ?n ?A v) = 0"
    for v :: "real list"
  proof (rule ccontr)
    assume "v \<noteq> replicate ?n 0"
    with v(1) obtain j where j: "j < ?n" "v ! j \<noteq> 0"
      by (auto simp: list_eq_iff_nth_eq)
    from A_spec_pd[OF assms(3) e, of j ?n "\<lambda>j. v ! j"] j
    have "0 < (\<Sum>j<?n. \<Sum>k<?n. v ! j * ?A j k * v ! k)" by simp
    moreover have "vdot ?n v (mat_vec ?n ?A v) = (\<Sum>j<?n. \<Sum>k<?n. v ! j * ?A j k * v ! k)"
      by (simp add: vdot_def nth_mat_vec sum_distrib_left mult.assoc)
    ultimately show False using v(2) by simp
  qed
  show ?thesis
  proof (rule cg_spec_exact[where r = ?r0 and p = ?r0 and rs = "vdot ?n ?r0 ?r0" and k = k
        and x = ?x0])
    show "cg_spec ?n ?A k (?x0, ?r0, ?r0, vdot ?n ?r0 ?r0) = Finite x"
      using assms(5) by (simp add: cg_solve_def Let_def)
    show "cg_spec ?n ?A (Suc k) (?x0, ?r0, ?r0, vdot ?n ?r0 ?r0) = DividedByZero"
      using assms(6) by (simp add: cg_solve_def Let_def del: cg_spec.simps)
  qed (use pd lx in simp_all)
qed

lemma upto01: "[0..0] = [0::int]" "[0..1] = [0, 1::int]"
  by (simp_all add: upto.simps)

section \<open>Claims\<close>

text \<open>
  C1.  On a well-formed input with positive regularization, where the stored confidences
  are non-negative and no item occurs twice in a row, and with a \<open>posv\<close> that solves
  symmetric positive definite systems, \<open>least_squares\<close> returns with no error and
  row \<open>u\<close> of \<open>X\<close> is the solution of \<open>A x = b\<close> for the system of user \<open>u\<close>, which
  has no other solution.  This holds for every \<open>num_threads\<close>: every status is zero.
\<close>

theorem least_squares_solves_normal_equations:
  assumes "wf_input Cui X Y" "wf_values Cui (shape0 X)" "0 < regularization"
    "posv_contract posv (shape1 X)"
  shows "\<exists>X'. least_squares posv gesv Cui X Y regularization num_threads = (X', None)
      \<and> shape0 X' = shape0 X \<and> shape1 X' = shape1 X
      \<and> (\<forall>u<shape0 X.
            solves (shape1 X) (A_spec Y regularization (user_entries Cui u))
              (b_spec Y (user_entries Cui u)) (rows X' ! u)
          \<and> (\<forall>x. solves (shape1 X) (A_spec Y regularization (user_entries Cui u))
                    (b_spec Y (user_entries Cui u)) x \<longrightarrow> x = rows X' ! u))"
proof -
  from least_squares_core[OF assms] obtain X' where
    X': "least_squares posv gesv Cui X Y regularization num_threads = (X', None)"
      "shape0 X' = shape0 X" "shape1 X' = shape1 X"
      "\<forall>u<shape0 X. solves (shape1 X) (A_spec Y regularization (user_entries Cui u))
                         (b_spec Y (user_entries Cui u)) (rows X' ! u)"
    by blast
  have "x = rows X' ! u"
    if "u < shape0 X" "solves (shape1 X) (A_spec Y regularization (user_entries Cui u))
                    (b_spec Y (user_entries Cui u)) x" for u x
    using wf_unique[OF assms(1-3) that(1) that(2)] X'(4) that(1) by blast
  with X' show ?thesis by blast
qed


theorem least_squares_solves_normal_equations_witness:
  "wf_input Cs Xs Ys \<and> wf_values Cs (shape0 Xs) \<and> (0 :: real) < 1 / 10
   \<and> posv_contract posv_ref (shape1 Xs)
   \<and> (\<exists>X'. least_squares posv_ref gesv_ref Cs Xs Ys (1 / 10) 0 = (X', None)
      \<and> shape0 X' = shape0 Xs \<and> shape1 X' = shape1 Xs
      \<and> (\<forall>u<shape0 Xs.
            solves (shape1 Xs) (A_spec Ys (1 / 10) (user_entries Cs u))
              (b_spec Ys (user_entries Cs u)) (rows X' ! u)
          \<and> (\<forall>x. solves (shape1 Xs) (A_spec Ys (1 / 10) (user_entries Cs u))
                    (b_spec Ys (user_entries Cs u)) x \<longrightarrow> x = rows X' ! u)))"
proof -
  have r: "(0 :: real) < 1 / 10" by simp
  have p: "posv_contract posv_ref (shape1 Xs)"
    using posv_ref_contract_2 by (simp add: Xs_def)
  from least_squares_solves_normal_equations[OF wf_Cs r p, of gesv_ref 0] wf_Cs r p
  show ?thesis by blast
qed

text \<open>
  C2, as stated, fails.  On the three-user input the function returns 2, and the stated
  formula gives 13 / 9: the source also adds every stored confidence to the loss.
\<close>

theorem calculate_loss_differs_from_stated_formula:
  "wf_input Cs Xs Ys
   \<and> fst (calculate_loss Cs Xs Ys (1 / 10)) = Inr 2
   \<and> loss_claimed Cs Xs Ys (1 / 10) = 13 / 9
   \<and> fst (calculate_loss Cs Xs Ys (1 / 10)) \<noteq> Inr (loss_claimed Cs Xs Ys (1 / 10))"
proof -
  have 1: "fst (calculate_loss Cs Xs Ys (1 / 10)) = Inr 2"
    by (simp add: ev inputs)
  have 2: "loss_claimed Cs Xs Ys (1 / 10) = 13 / 9"
    by (simp add: spec_ev inputs upt1 upt2 upt3)
  from 1 2 wf_Cs(1) show ?thesis by simp
qed

text \<open>
  C2, amended.  On a well-formed input \<open>calculate_loss\<close> returns
  \<open>(\<Sum> per-user terms + regularization * (\<Sum> x \<cdot> x + \<Sum> y \<cdot> y))
  / (total_confidence + users * items - nnz)\<close>, where the term of a user is \<open>r \<cdot> x\<close>
  plus the sum of the user's stored confidences, and \<open>total_confidence\<close> is the sum of
  all stored confidences; when the denominator is zero the division raises
  \<open>ZeroDivisionError\<close>.
\<close>

theorem calculate_loss_value:
  assumes "wf_input Cui X Y"
  shows "fst (calculate_loss Cui X Y regularization)
         = (if loss_denominator Cui X Y = 0 then Inl ZeroDivisionError
            else Inr (loss_value Cui X Y regularization))"
proof -
  let ?n = "shape1 X" and ?m = "shape0 X" and ?G = "np_dot (np_transpose Y) Y"
  from assms have c: "wf_csr Cui ?m (shape0 Y)" and r: "rect Y" and e: "shape1 Y = ?n"
    and rx: "rect X"
    by (simp_all add: wf_input_def)
  let ?s0 = "\<lparr>mX = X, mY = Y, r_buf = malloc ?n, loss = 0, total_confidence = 0,
                item_norm = 0, user_norm = 0\<rparr>"
  let ?lt = "\<lambda>u. (\<Sum>(i, c)\<leftarrow>user_entries Cui u. c)
                + user_term Y (user_entries Cui u) ?n (rows X ! u)"
  let ?tc = "\<lambda>u. (\<Sum>(i, c)\<leftarrow>user_entries Cui u. c)"
  let ?un = "\<lambda>u. vdot ?n (rows X ! u) (rows X ! u)"
  let ?it = "\<lambda>i. vdot ?n (rows Y ! i) (rows Y ! i)"
  have "\<exists>s'. users_loop (calculate_loss_user Cui ?n ?G) [0..<?m] ?s0 = (s', None)
        \<and> (mX s' = X \<and> mY s' = Y)
        \<and> loss s' = loss ?s0 + (\<Sum>u\<leftarrow>[0..<?m]. ?lt u)
        \<and> total_confidence s' = total_confidence ?s0 + (\<Sum>u\<leftarrow>[0..<?m]. ?tc u)
        \<and> user_norm s' = user_norm ?s0 + (\<Sum>u\<leftarrow>[0..<?m]. ?un u)
        \<and> item_norm s' = item_norm ?s0 + (\<Sum>u\<leftarrow>[0..<?m]. 0)"
  proof (rule loss_loop)
    show "mX ?s0 = X \<and> mY ?s0 = Y" by simp
    fix u and s :: loss_state assume u: "u \<in> set [0..<?m]" and s: "mX s = X \<and> mY s = Y"
    from u have um: "u < ?m" by simp
    with rx have "length (rows X ! u) = shape1 Y"
      by (simp add: rect_def shape0_def list_all_length e)
    from wf_loss_user[OF c r um s this]
    show "\<exists>s'. calculate_loss_user Cui ?n ?G u s = Inr s' \<and> (mX s' = X \<and> mY s' = Y)
        \<and> loss s' = loss s + ?lt u
        \<and> total_confidence s' = total_confidence s + ?tc u
        \<and> user_norm s' = user_norm s + ?un u
        \<and> item_norm s' = item_norm s + 0"
      by (simp add: e)
  qed
  then obtain s1 where s1: "users_loop (calculate_loss_user Cui ?n ?G) [0..<?m] ?s0 = (s1, None)"
    "mX s1 = X \<and> mY s1 = Y" "loss s1 = (\<Sum>u<?m. ?lt u)"
    "total_confidence s1 = (\<Sum>u<?m. ?tc u)" "user_norm s1 = (\<Sum>u<?m. ?un u)"
    "item_norm s1 = 0"
    by (auto simp: sum_list_upt_lessThan)
  have "\<exists>s'. users_loop (calculate_loss_item ?n) [0..<shape0 Y] s1 = (s', None)
        \<and> (mX s' = X \<and> mY s' = Y)
        \<and> loss s' = loss s1 + (\<Sum>u\<leftarrow>[0..<shape0 Y]. 0)
        \<and> total_confidence s' = total_confidence s1 + (\<Sum>u\<leftarrow>[0..<shape0 Y]. 0)
        \<and> user_norm s' = user_norm s1 + (\<Sum>u\<leftarrow>[0..<shape0 Y]. 0)
        \<and> item_norm s' = item_norm s1 + (\<Sum>u\<leftarrow>[0..<shape0 Y]. ?it u)"
  proof (rule loss_loop)
    show "mX s1 = X \<and> mY s1 = Y" by (rule s1(2))
    fix i and s :: loss_state assume i: "i \<in> set [0..<shape0 Y]" and s: "mX s = X \<and> mY s = Y"
    from i have "i < shape0 Y" by simp
    from wf_loss_item[OF r this s]
    show "\<exists>s'. calculate_loss_item ?n i s = Inr s' \<and> (mX s' = X \<and> mY s' = Y)
        \<and> loss s' = loss s + 0
        \<and> total_confidence s' = total_confidence s + 0
        \<and> user_norm s' = user_norm s + 0
        \<and> item_norm s' = item_norm s + ?it i"
      by (simp add: e)
  qed
  then obtain s2 where s2: "users_loop (calculate_loss_item ?n) [0..<shape0 Y] s1 = (s2, None)"
    "loss s2 = (\<Sum>u<?m. ?lt u)" "total_confidence s2 = (\<Sum>u<?m. ?tc u)"
    "user_norm s2 = (\<Sum>u<?m. ?un u)" "item_norm s2 = (\<Sum>i<shape0 Y. ?it i)"
    using s1 by (auto simp: sum_list_upt_lessThan)
  from c have sh: "shape Cui = (?m, shape0 Y)" "nnz Cui = int (length (data Cui))"
    by (simp_all add: wf_csr_def)
  have tc: "total_confidence s2 = sum_list (data Cui)"
    using s2(3) stored_confidence_total[OF c] by simp
  have den: "total_confidence s2 + real_of_int (int (fst (shape Cui)) * int (snd (shape Cui)))
        - real_of_int (nnz Cui) = loss_denominator Cui X Y"
    unfolding tc sh by (simp add: loss_denominator_def)
  have num: "loss s2 + regularization * (item_norm s2 + user_norm s2)
      = (\<Sum>u<?m. user_term Y (user_entries Cui u) ?n (rows X ! u)
                       + (\<Sum>(i, c)\<leftarrow>user_entries Cui u. c))
        + regularization * norms X Y"
    unfolding s2 norms_def by (simp add: add.commute)
  show ?thesis
    using s1(1) s2(1) den num
    by (simp add: calculate_loss_def Let_def loss_value_def)
qed


theorem calculate_loss_value_witness:
  "wf_input Cs Xs Ys
   \<and> loss_denominator Cs Xs Ys = 9
   \<and> loss_value Cs Xs Ys (1 / 10) = 2
   \<and> fst (calculate_loss Cs Xs Ys (1 / 10)) = Inr (loss_value Cs Xs Ys (1 / 10))"
proof -
  have d: "loss_denominator Cs Xs Ys = 9"
    by (simp add: spec_ev inputs)
  have v: "loss_value Cs Xs Ys (1 / 10) = 2"
    by (simp add: spec_ev inputs upt1 upt2 upt3)
  from calculate_loss_value[OF wf_Cs(1), of "1 / 10"] d v wf_Cs(1) show ?thesis
    by simp
qed

text \<open>
  C3.  On \<open>Cc\<close>, \<open>Xc\<close>, \<open>Yc\<close> with no regularization the system of user 0 is
  \<open>A = [[4, 2], [2, 1]]\<close>, \<open>b = [2, 1]\<close>.  Cholesky reports 2 and leaves the
  buffer \<open>[2, 2, 1, 0]\<close>.  The pivoted solve on the buffer as given to Cholesky would
  report 2; run on the buffer Cholesky left, it reports 0, and \<open>[1 / 2, 1]\<close> is
  written into \<open>X\<close>.
\<close>

theorem least_squares_retry_on_overwritten_system:
  "build_system Cc Yc 2 \<lparr>shape1 = 2, rows = [[4, 2], [2, 1]]\<rparr> [0, 0] 0 = Inr ([4, 2, 2, 1], [2, 1])
   \<and> posv_ref 2 [4, 2, 2, 1] [2, 1] = ([2, 2, 1, 0], [2, 1], 2)
   \<and> gesv_ref 2 [4, 2, 2, 1] [2, 1] = ([4, 1 / 2, 2, 0], [1, 2], [2, 1], 2)
   \<and> gesv_ref 2 [2, 2, 1, 0] [2, 1] = ([2, 1, 1, - 1], [1, 2], [1 / 2, 1], 0)
   \<and> least_squares posv_ref gesv_ref Cc Xc Yc 0 0 = (\<lparr>shape1 = 2, rows = [[1 / 2, 1]]\<rparr>, None)"
  by (simp add: ev inputs)

text \<open>
  C4.  On a well-formed input \<open>least_squares_cg\<close> returns with no error, and it has
  processed every user: row \<open>u\<close> of the result is the outcome of the conjugate-gradient
  recurrence on the system \<open>A\<close>, \<open>b\<close> of user \<open>u\<close>, started from row \<open>u\<close> of
  \<open>X\<close> with \<open>r\<^sub>0 = b - A x\<^sub>0\<close> and run for exactly \<open>cg_steps\<close> iterations
  (none when \<open>cg_steps\<close> is not positive).  The outcome of a user does not depend on
  the other users: where the recurrence of one user meets a zero divisor, that user's row
  is \<open>DividedByZero\<close> and all other rows are as the recurrence gives them.
\<close>

theorem least_squares_cg_runs_recurrence:
  assumes "wf_input Cui X Y"
  shows "least_squares_cg Cui X Y regularization cg_steps =
     (map (\<lambda>u. cg_solve (shape1 X) (A_spec Y regularization (user_entries Cui u))
                  (b_spec Y (user_entries Cui u)) (rows X ! u) (nat cg_steps))
        [0..<shape0 X], None)"
  using assms by (rule least_squares_cg_rows)

theorem least_squares_cg_runs_recurrence_witness:
  "wf_input Cs Xs Ys
   \<and> least_squares_cg Cs Xs Ys (1 / 10) 2
       = ([Finite [220 / 241, - (200 / 241)], DividedByZero, Finite [30 / 371, 330 / 371]], None)
   \<and> map (\<lambda>u. cg_solve (shape1 Xs) (A_spec Ys (1 / 10) (user_entries Cs u))
                 (b_spec Ys (user_entries Cs u)) (rows Xs ! u) (nat 2)) [0..<shape0 Xs]
       = [Finite [220 / 241, - (200 / 241)], DividedByZero, Finite [30 / 371, 330 / 371]]"
proof -
  have ev: "least_squares_cg Cs Xs Ys (1 / 10) 2
       = ([Finite [220 / 241, - (200 / 241)], DividedByZero, Finite [30 / 371, 330 / 371]], None)"
    by (simp add: ev inputs upto01)
  from least_squares_cg_runs_recurrence[OF wf_Cs(1), of "1 / 10" 2] ev wf_Cs(1)
  show ?thesis by simp
qed

text \<open>
  C5.  Under the same conditions, a user whose row of the confidence matrix is empty
  gets the zero vector.
\<close>

theorem least_squares_empty_row_gives_zero:
  assumes "wf_input Cui X Y" "wf_values Cui (shape0 X)" "0 < regularization"
    "posv_contract posv (shape1 X)" "u < shape0 X" "indptr Cui ! u = indptr Cui ! Suc u"
  shows "\<exists>X'. least_squares posv gesv Cui X Y regularization num_threads = (X', None)
      \<and> rows X' ! u = replicate (shape1 X) 0"
proof -
  from least_squares_core[OF assms(1-4)] obtain X' where
    X': "least_squares posv gesv Cui X Y regularization num_threads = (X', None)"
      "\<forall>u<shape0 X. solves (shape1 X) (A_spec Y regularization (user_entries Cui u))
                         (b_spec Y (user_entries Cui u)) (rows X' ! u)"
    by blast
  from assms(6) have e: "user_entries Cui u = []" by (simp add: user_entries_def)
  have "solves (shape1 X) (A_spec Y regularization (user_entries Cui u))
          (b_spec Y (user_entries Cui u)) (replicate (shape1 X) 0)"
    by (simp add: solves_def e b_spec_def)
  from wf_unique[OF assms(1-3,5) this] X'(2) assms(5) have "replicate (shape1 X) 0 = rows X' ! u"
    by blast
  with X'(1) show ?thesis by simp
qed


theorem least_squares_empty_row_gives_zero_witness:
  "wf_input Cs Xs Ys \<and> wf_values Cs (shape0 Xs) \<and> (0 :: real) < 1 / 10
   \<and> posv_contract posv_ref (shape1 Xs) \<and> 1 < shape0 Xs
   \<and> indptr Cs ! 1 = indptr Cs ! Suc 1
   \<and> (\<exists>X'. least_squares posv_ref gesv_ref Cs Xs Ys (1 / 10) 0 = (X', None)
          \<and> rows X' ! 1 = replicate (shape1 Xs) 0)"
proof -
  have r: "(0 :: real) < 1 / 10" by simp
  have p: "posv_contract posv_ref (shape1 Xs)"
    using posv_ref_contract_2 by (simp add: Xs_def)
  have u: "1 < shape0 Xs" "indptr Cs ! 1 = indptr Cs ! Suc 1"
    by (simp_all add: inputs shape0_def)
  from least_squares_empty_row_gives_zero[OF wf_Cs r p u, of gesv_ref 0] wf_Cs r p u
  show ?thesis by blast
qed

text \<open>
  C6, as stated, fails: with \<open>cg_steps = 0\<close> the call on a well-formed input returns
  with no error.
\<close>

theorem least_squares_cg_zero_steps_no_error:
  "least_squares_cg Cs Xs Ys (1 / 10) 0 = (map Finite (rows Xs), None)"
  by (simp add: ev inputs)

text \<open>
  C6, amended.  With a non-positive \<open>cg_steps\<close> no iteration of the conjugate-gradient
  loop runs: \<open>X\<close> is left as it was, and on a well-formed input the call returns with
  no error.
\<close>

theorem least_squares_cg_nonpositive_steps:
  assumes "cg_steps \<le> 0"
  shows "fst (least_squares_cg Cui X Y regularization cg_steps) = map Finite (rows X)
       \<and> (wf_input Cui X Y \<longrightarrow>
            least_squares_cg Cui X Y regularization cg_steps = (map Finite (rows X), None))"
proof
  show "fst (least_squares_cg Cui X Y regularization cg_steps) = map Finite (rows X)"
  proof (cases "np_add (np_dot (np_transpose Y) Y) (np_scale regularization (np_eye (shape1 X)))")
    case (Inl e)
    then show ?thesis by (simp add: least_squares_cg_def Let_def)
  next
    case (Inr YtY)
    have "fst (users_loop (least_squares_cg_user Cui Y (shape1 X) YtY cg_steps) [0..<shape0 X]
                 (map Finite (rows X))) = map Finite (rows X)"
      by (rule users_loop_preserves[where P = "\<lambda>s. s = map Finite (rows X)"])
         (use cg_user_nonpos[OF assms] in auto)
    with Inr show ?thesis by (simp add: least_squares_cg_def Let_def)
  qed
next
  show "wf_input Cui X Y \<longrightarrow>
          least_squares_cg Cui X Y regularization cg_steps = (map Finite (rows X), None)"
  proof
    assume wf: "wf_input Cui X Y"
    then have c: "wf_csr Cui (shape0 X) (shape0 Y)" and r: "rect Y" and e: "shape1 Y = shape1 X"
      by (simp_all add: wf_input_def)
    from prologue_wf[OF e] obtain M where
      M: "np_add (np_dot (np_transpose Y) Y) (np_scale regularization (np_eye (shape1 X))) = Inr M"
      and l: "length (flat M) = shape1 Y * shape1 Y"
      using e by auto
    have "users_loop (least_squares_cg_user Cui Y (shape1 Y) M cg_steps) [0..<shape0 X]
            (map Finite (rows X)) = (map Finite (rows X), None)"
      by (rule users_loop_all_Inr) (simp add: wf_cg_user_nonpos[OF c r _ l assms])
    with M e show "least_squares_cg Cui X Y regularization cg_steps = (map Finite (rows X), None)"
      by (simp add: least_squares_cg_def Let_def)
  qed
qed

theorem least_squares_cg_nonpositive_steps_witness:
  "(- 1 :: int) \<le> 0
   \<and> fst (least_squares_cg Cs Xs Ys (1 / 10) (- 1)) = map Finite (rows Xs)
   \<and> wf_input Cs Xs Ys
   \<and> least_squares_cg Cs Xs Ys (1 / 10) (- 1) = (map Finite (rows Xs), None)"
proof -
  have wf: "wf_input Cs Xs Ys"
    by (simp add: wf_input_def wf_csr_def rect_def shape0_def inputs)
  with least_squares_cg_nonpositive_steps[of "- 1" Cs Xs Ys "1 / 10"] show ?thesis
    by simp
qed

text \<open>
  C7, as stated, fails.  With one factor in \<open>X\<close> and two in \<open>Y\<close> all three
  functions return with no error; so they do on a row-pointer array that decreases.
\<close>

theorem shape_mismatch_undetected:
  "shape1 Xn \<noteq> shape1 Yn
   \<and> least_squares posv_ref gesv_ref Cn Xn Yn (1 / 10) 0 = (\<lparr>shape1 = 1, rows = [[20 / 21]]\<rparr>, None)
   \<and> least_squares_cg Cn Xn Yn (1 / 10) 1 = ([Finite [20 / 21]], None)
   \<and> fst (calculate_loss Cn Xn Yn (1 / 10)) = Inr (1 / 10)
   \<and> \<not> sorted (indptr Cm)
   \<and> least_squares posv_ref gesv_ref Cm Xn Ym (1 / 10) 0 = (\<lparr>shape1 = 1, rows = [[0]]\<rparr>, None)
   \<and> least_squares_cg Cm Xn Ym (1 / 10) 1 = ([Finite [0]], None)
   \<and> fst (calculate_loss Cm Xn Ym (1 / 10)) = Inr (23 / 10)"
  by (simp add: ev inputs)

text \<open>
  C7, amended.  When the factor widths of \<open>X\<close> and \<open>Y\<close> differ and neither is 1,
  \<open>least_squares\<close> and \<open>least_squares_cg\<close> fail in the prologue, where the sum of the
  Gram matrix and the scaled identity cannot be broadcast, before any user is
  processed and with \<open>X\<close> as it was.
\<close>

theorem mismatch_detected_by_broadcast:
  assumes "shape1 X \<noteq> shape1 Y" "shape1 X \<noteq> 1" "shape1 Y \<noteq> 1"
  shows "least_squares posv gesv Cui X Y regularization num_threads = (X, Some BroadcastError)
       \<and> least_squares_cg Cui X Y regularization cg_steps
           = (map Finite (rows X), Some BroadcastError)"
  using prologue_mismatch[OF assms]
  by (simp add: least_squares_def least_squares_cg_def Let_def)


theorem mismatch_detected_by_broadcast_witness:
  "shape1 Xs \<noteq> shape1 Y3 \<and> shape1 Xs \<noteq> 1 \<and> shape1 Y3 \<noteq> 1
   \<and> least_squares posv_ref gesv_ref Cs Xs Y3 (1 / 10) 0 = (Xs, Some BroadcastError)
   \<and> least_squares_cg Cs Xs Y3 (1 / 10) 3 = (map Finite (rows Xs), Some BroadcastError)"
  using mismatch_detected_by_broadcast[of Xs Y3 posv_ref gesv_ref Cs "1 / 10" 0 3]
  by (simp add: inputs)

text \<open>
  C8.  \<open>calculate_loss\<close> leaves \<open>X\<close> and \<open>Y\<close> as they were, on every input and
  whatever the outcome.
\<close>

theorem calculate_loss_frame:
  "snd (calculate_loss Cui X Y regularization) = (X, Y)"
proof -
  let ?s0 = "\<lparr>mX = X, mY = Y, r_buf = malloc (shape1 X), loss = 0, total_confidence = 0,
                item_norm = 0, user_norm = 0\<rparr>"
  let ?l1 = "users_loop (calculate_loss_user Cui (shape1 X) (np_dot (np_transpose Y) Y))
               [0..<shape0 X] ?s0"
  let ?l2 = "users_loop (calculate_loss_item (shape1 X)) [0..<shape0 Y] (fst ?l1)"
  have 1: "mX (fst ?l1) = X \<and> mY (fst ?l1) = Y"
  proof (rule users_loop_preserves[where P = "\<lambda>s. mX s = X \<and> mY s = Y"])
    show "mX ?s0 = X \<and> mY ?s0 = Y" by simp
  qed (rule calculate_loss_user_frame)
  have 2: "mX (fst ?l2) = X \<and> mY (fst ?l2) = Y"
  proof (rule users_loop_preserves[where P = "\<lambda>s. mX s = X \<and> mY s = Y"])
    show "mX (fst ?l1) = X \<and> mY (fst ?l1) = Y" by (rule 1)
  qed (rule calculate_loss_item_frame)
  show ?thesis
    using 1 2
    by (cases ?l1; cases ?l2) (auto simp: calculate_loss_def Let_def split: option.splits)
qed

text \<open>
  C9.  On \<open>Cw\<close>, \<open>Xw\<close>, \<open>Yw\<close> with no regularization the system of user 1 is
  singular: \<open>posv\<close> and \<open>gesv\<close> both report 2 and leave \<open>b = [0, 0]\<close>.  With one
  thread the call fails for user 1 and row 1 stays \<open>[8, 9]\<close>, as the claim says.  With
  two threads and the schedule in which user 1 makes its two calls, then user 0 calls
  \<open>posv\<close>, which stores 0 in \<open>err\<close>, and then user 1 tests \<open>if not err\<close>, the
  test reads the status of user 0: \<open>b\<close> is copied into row 1 although the last solve
  of user 1 reported 2, and the call returns with no error.  With the default
  \<open>num_threads\<close> the outcome depends on the schedule.
\<close>

theorem least_squares_shared_status_overwrites_row:
  "build_system Cw Yw 2 Yw [0, 0] 1 = Inr ([1, 0, 0, 0], [0, 0])
   \<and> posv_ref 2 [1, 0, 0, 0] [0, 0] = ([1, 0, 0, 0], [0, 0], 2)
   \<and> direct_solve posv_ref gesv_ref 2 [1, 0, 0, 0] [0, 0] = ([0, 0], 2)
   \<and> least_squares posv_ref gesv_ref Cw Xw Yw 0 1
       = (\<lparr>shape1 = 2, rows = [[0, 0], [8, 9]]\<rparr>, Some (SingularMatrix 2 1))
   \<and> (\<forall>err0. least_squares_schedule posv_ref gesv_ref 2 err0 [1, 1, 0, 1, 0, 0] Cw Xw Yw 0
         = Some \<lparr>team_X = \<lparr>shape1 = 2, rows = [[0, 0], [0, 0]]\<rparr>, team_err = 0,
                  team_iterations = [Stored, Stored]\<rparr>)
   \<and> least_squares posv_ref gesv_ref Cw Xw Yw 0 0
       = (\<lparr>shape1 = 2, rows = [[0, 0], [8, 9]]\<rparr>, Some StatusRace)"
  by (simp add: ev inputs)

text \<open>
  C10.  The divisions of the conjugate-gradient loop are not guarded.  On a well-formed
  input with \<open>cg_steps \<ge> 1\<close>, a user with no stored item and a zero factor row has
  \<open>r = p = 0\<close> and \<open>rsold = 0\<close>, so \<open>p \<cdot> Ap = 0\<close> at the first iteration: the
  call divides by zero for that user, goes on, and returns with that row computed from
  the quotient.
\<close>

theorem least_squares_cg_zero_division_reachable:
  assumes "wf_input Cui X Y" "1 \<le> cg_steps" "u < shape0 X"
    "indptr Cui ! u = indptr Cui ! Suc u" "rows X ! u = replicate (shape1 X) 0"
  shows "\<exists>Z. least_squares_cg Cui X Y regularization cg_steps = (Z, None)
           \<and> length Z = shape0 X \<and> Z ! u = DividedByZero"
proof -
  from assms(4) have e: "user_entries Cui u = []" by (simp add: user_entries_def)
  have b: "b_spec Y [] = (\<lambda>j. 0)" by (simp add: b_spec_def fun_eq_iff)
  from assms(2) have "0 < nat cg_steps" by simp
  then have "cg_solve (shape1 X) (A_spec Y regularization (user_entries Cui u))
               (b_spec Y (user_entries Cui u)) (rows X ! u) (nat cg_steps) = DividedByZero"
    unfolding e b assms(5) by (rule cg_solve_zero)
  with assms(3) show ?thesis
    by (simp add: least_squares_cg_rows[OF assms(1)])
qed

theorem least_squares_cg_zero_division_reachable_witness:
  "wf_input Cs Xs Ys \<and> (1 :: int) \<le> 3 \<and> 1 < shape0 Xs
   \<and> indptr Cs ! 1 = indptr Cs ! Suc 1 \<and> rows Xs ! 1 = replicate (shape1 Xs) 0
   \<and> (\<exists>Z. least_squares_cg Cs Xs Ys (1 / 10) 3 = (Z, None)
          \<and> length Z = shape0 Xs \<and> Z ! 1 = DividedByZero)"
proof -
  have wf: "wf_input Cs Xs Ys"
    by (simp add: wf_input_def wf_csr_def rect_def shape0_def inputs)
  have h: "(1 :: int) \<le> 3" "1 < shape0 Xs" "indptr Cs ! 1 = indptr Cs ! Suc 1"
    "rows Xs ! 1 = replicate (shape1 Xs) 0"
    by (simp_all add: inputs shape0_def rep2)
  from least_squares_cg_zero_division_reachable[OF wf h, of "1 / 10"] wf h show ?thesis
    by blast
qed

end
